theory Spec2Isabelle
  imports Main "HOL-Library.Word"
begin

section \<open>Wire framing (client/framing.js and the relay's copy of it)\<close>

text \<open>
  A frame on the wire is \<open>[length: 4 bytes, big endian][type: 1 byte][payload]\<close>.
  Buffers are lists of 8-bit words; JavaScript numbers that hold lengths and type tags
  are natural numbers (they never leave the exact integer range of a double here).
\<close>

type_synonym byte = "8 word"
type_synonym bytes = "byte list"

datatype error = RangeError

text \<open>
  \<open>buf.writeUInt32BE(value, 0)\<close> on a fresh 4-byte buffer: Node raises a RangeError
  when the value is not in \<open>0 .. 2^32 - 1\<close>; otherwise the four bytes are the value
  in network byte order.
\<close>

definition writeUInt32BE :: "nat \<Rightarrow> error + bytes" where
  "writeUInt32BE v =
     (if v < 2 ^ 32
      then Inr [of_nat (v div 2 ^ 24), of_nat (v div 2 ^ 16), of_nat (v div 2 ^ 8), of_nat v]
      else Inl RangeError)"

text \<open>\<open>buffer.readUInt32BE(0)\<close>; every caller has checked \<open>buffer.length >= 5\<close>.\<close>

definition readUInt32BE :: "bytes \<Rightarrow> nat" where
  "readUInt32BE b =
     unat (b ! 0) * 2 ^ 24 + unat (b ! 1) * 2 ^ 16 + unat (b ! 2) * 2 ^ 8 + unat (b ! 3)"

text \<open>
  \<open>sendMessage(sock, msgTpe, payLoadBuffer)\<close>: the value is the byte string handed to
  \<open>sock.write\<close>. \<open>Buffer.from([msgTpe])\<close> stores the number modulo 256, which is what
  \<open>of_nat\<close> does on an 8-bit word.
\<close>

definition sendMessage :: "nat \<Rightarrow> bytes \<Rightarrow> error + bytes" where
  "sendMessage msgTpe payLoadBuffer =
     (case writeUInt32BE (length payLoadBuffer) of
        Inl e \<Rightarrow> Inl e
      | Inr len \<Rightarrow> Inr (len @ [of_nat msgTpe] @ payLoadBuffer))"

text \<open>
  The \<open>while\<close> loop of \<open>setupMessageReader\<close>'s data handler, run on the accumulated
  buffer: the value is the list of \<open>onMessage(msgType, payload)\<close> calls in order and the
  buffer that is left for the next chunk.
\<close>

function reader_loop :: "bytes \<Rightarrow> (nat \<times> bytes) list \<times> bytes" where
  "reader_loop buffer =
     (if length buffer \<ge> 5 then
        (let msgLength = readUInt32BE buffer in
         if length buffer \<ge> msgLength + 5 then
           (let msgType = unat (buffer ! 4);
                payload = take msgLength (drop 5 buffer);
                r = reader_loop (drop (5 + msgLength) buffer)
            in ((msgType, payload) # fst r, snd r))
         else ([], buffer))
      else ([], buffer))"
  by pat_completeness auto
termination
  by (relation "measure length") auto

declare reader_loop.simps [simp del]

text \<open>
  The data handler itself: append the chunk to the buffer, run the loop. A reader is
  its buffer; feeding a list of chunks collects the messages of every call.
\<close>

definition on_data :: "bytes \<Rightarrow> bytes \<Rightarrow> (nat \<times> bytes) list \<times> bytes" where
  "on_data buffer chunk = reader_loop (buffer @ chunk)"

fun feed :: "bytes \<Rightarrow> bytes list \<Rightarrow> (nat \<times> bytes) list \<times> bytes" where
  "feed buffer [] = ([], buffer)"
| "feed buffer (chunk # chunks) =
     (let r = on_data buffer chunk; r' = feed (snd r) chunks
      in (fst r @ fst r', snd r'))"

text \<open>The bytes that a sequence of \<open>sendMessage\<close> calls writes to one socket.\<close>

fun send_all :: "(nat \<times> bytes) list \<Rightarrow> error + bytes" where
  "send_all [] = Inr []"
| "send_all (m # ms) =
     (case sendMessage (fst m) (snd m) of
        Inl e \<Rightarrow> Inl e
      | Inr f \<Rightarrow> (case send_all ms of Inl e \<Rightarrow> Inl e | Inr r \<Rightarrow> Inr (f @ r)))"

text \<open>The messages of a frame sequence, with the type tags as the reader reports them.\<close>

definition as_read :: "(nat \<times> bytes) list \<Rightarrow> (nat \<times> bytes) list" where
  "as_read ms = map (\<lambda>m. (fst m mod 256, snd m)) ms"

section \<open>The local agent (client/ship-proxy.js)\<close>

text \<open>
  The agent is one event loop. Its state is the module's variables (\<open>queue\<close>,
  \<open>processing\<close>, \<open>offshoreSocket\<close>, \<open>reconnectTimer\<close>), the objects they refer
  to, and the suspended calls of the async function \<open>processingLoop\<close>. One step of the
  model is one callback of the event loop together with the promise continuations it
  releases. Objects are kept in stores indexed by their identity, because the queue, the
  suspended calls and the socket handlers all hold references to the same objects.
\<close>

subsection \<open>Objects\<close>

datatype stream_state = Paused | Flowing | Ended

datatype cs_write =
    Established200     \<comment> \<open>\<open>'HTTP/1.1 200 Connection Established\r\n\r\n'\<close>\<close>
  | BadGateway502      \<comment> \<open>\<open>'HTTP/1.1 502 Bad Gateway\r\n\r\n'\<close>\<close>
  | Piped bytes        \<comment> \<open>bytes that \<open>remote.pipe(clientSocket)\<close> forwarded\<close>

text \<open>
  \<open>requestObj\<close> of \<open>enqueueRequest\<close>, with the state of the objects it refers to:
  \<open>req\<close> (a readable stream that emits \<open>'end'\<close> once, to the listeners registered at
  that moment), the promise \<open>responsePromise\<close> (settled at most once; \<open>reactions\<close> are
  the suspended calls awaiting it through \<open>promiseWithTimeout\<close>), and for a CONNECT
  request the client socket. \<open>res\<close> is present exactly when \<open>isConnect\<close> is false;
  \<open>res_closed\<close> says that \<open>res\<close> has emitted \<open>'close'\<close> (Node sets its \<open>destroyed\<close> then),
  which happens some time after the answer was handed to the socket.
\<close>

record requestObj =
  isConnect :: bool
  url :: string
  host_header :: "string option"
  req_state :: stream_state
  end_listeners :: "nat list"
  settled :: "bytes option"
  reactions :: "nat list"
  cs_out :: "cs_write list"
  cs_ended :: bool
  cs_closed :: bool
  res_closed :: bool

text \<open>
  A suspended call of \<open>processingLoop\<close>: its local \<open>current\<close> and the \<open>await\<close> it is
  parked at (the 200 ms sleep of line 101 with its due time, the \<open>'end'\<close> of the request
  body in line 115, the response or the timeout of line 131 with the timer's due time).
\<close>

datatype pc = Wait200 nat | AwaitEnd | AwaitResp nat | Finished

record invocation =
  current :: nat
  pc :: pc

text \<open>One socket made by \<open>connectToOffshore\<close>, with the buffer of its message reader.\<close>

record sock =
  connected :: bool
  destroyed :: bool
  closed :: bool
  rbuf :: bytes

datatype remote_state = Connecting | Open | Closed

text \<open>
  One run of the CONNECT branch: the socket \<open>remote\<close> of line 168 and the handlers that
  close over it and over \<open>current\<close>.
\<close>

record tunnel =
  t_current :: nat
  t_host :: "string option"
  t_port :: nat
  remote :: remote_state
  remote_destroyed :: bool
  piped :: bool
  to_remote :: bytes

text \<open>What the agent wrote to a local client's \<open>res\<close>.\<close>

datatype answer =
    Unavailable502      \<comment> \<open>\<open>writeHead(502); end('Bad Gateway: offshore unavailable')\<close>\<close>
  | GatewayTimeout504   \<comment> \<open>\<open>writeHead(504); end('Gateway Timeout')\<close>\<close>
  | Relayed bytes       \<comment> \<open>lines 143-151 on this response payload\<close>

text \<open>
  The state. \<open>sent\<close>, \<open>delivered\<close> and \<open>received\<close> are logs, never read by the agent:
  the \<open>sendMessage(offshoreSocket, 0, ...)\<close> calls (socket, request), the answers written
  to a \<open>res\<close> (request, answer), and the payloads of the type-1 messages handed to the
  reader's callback. \<open>reconnectTimer\<close> holds the due time of the timeout object the
  variable refers to; \<open>timerArmed\<close> says whether that timeout is still to fire (the
  variable is not reset when it fires). \<open>exited\<close> is set when an \<open>'error'\<close> event is
  emitted on an object without a listener for it: the process exits.
\<close>

record cstate =
  now :: nat
  objs :: "requestObj list"
  queue :: "nat list"
  processing :: bool
  offshoreSocket :: "nat option"
  socks :: "sock list"
  reconnectTimer :: "nat option"
  timerArmed :: bool
  invs :: "invocation list"
  tunnels :: "tunnel list"
  sent :: "(nat option \<times> nat) list"
  delivered :: "(nat \<times> answer) list"
  received :: "bytes list"
  exited :: bool

definition RECONNECT_MS :: nat where "RECONNECT_MS = 5000"
definition OFFSHORE_RESPONSE_TIMEOUT_MS :: nat where "OFFSHORE_RESPONSE_TIMEOUT_MS = 20000"

definition upd_obj :: "nat \<Rightarrow> (requestObj \<Rightarrow> requestObj) \<Rightarrow> cstate \<Rightarrow> cstate" where
  "upd_obj c f s = s\<lparr>objs := (objs s)[c := f (objs s ! c)]\<rparr>"

definition upd_inv :: "nat \<Rightarrow> (invocation \<Rightarrow> invocation) \<Rightarrow> cstate \<Rightarrow> cstate" where
  "upd_inv i f s = s\<lparr>invs := (invs s)[i := f (invs s ! i)]\<rparr>"

definition upd_sock :: "nat \<Rightarrow> (sock \<Rightarrow> sock) \<Rightarrow> cstate \<Rightarrow> cstate" where
  "upd_sock k f s = s\<lparr>socks := (socks s)[k := f (socks s ! k)]\<rparr>"

definition upd_tunnel :: "nat \<Rightarrow> (tunnel \<Rightarrow> tunnel) \<Rightarrow> cstate \<Rightarrow> cstate" where
  "upd_tunnel t f s = s\<lparr>tunnels := (tunnels s)[t := f (tunnels s ! t)]\<rparr>"

subsection \<open>Connection lifecycle\<close>

text \<open>\<open>!offshoreSocket || offshoreSocket.destroyed\<close>\<close>

definition sock_unavailable :: "cstate \<Rightarrow> bool" where
  "sock_unavailable s =
     (case offshoreSocket s of None \<Rightarrow> True | Some k \<Rightarrow> destroyed (socks s ! k))"

text \<open>
  \<open>connectToOffshore\<close>: nothing when a socket that is not destroyed exists; otherwise a
  new socket, with the four handlers and a fresh reader, becomes \<open>offshoreSocket\<close>.
\<close>

definition connectToOffshore :: "cstate \<Rightarrow> cstate" where
  "connectToOffshore s =
     (if \<not> sock_unavailable s then s
      else s\<lparr>socks := socks s @ [\<lparr>connected = False, destroyed = False, closed = False, rbuf = []\<rparr>],
             offshoreSocket := Some (length (socks s))\<rparr>)"

text \<open>\<open>if (!reconnectTimer) reconnectTimer = setTimeout(connectToOffshore, RECONNECT_MS)\<close>\<close>

definition schedule_reconnect :: "cstate \<Rightarrow> cstate" where
  "schedule_reconnect s =
     (if reconnectTimer s = None
      then s\<lparr>reconnectTimer := Some (now s + RECONNECT_MS), timerArmed := True\<rparr>
      else s)"

subsection \<open>The CONNECT target\<close>

definition is_space :: "char \<Rightarrow> bool" where
  "is_space c = ((of_char c :: nat) \<in> {32, 9, 10, 11, 12, 13})"

definition is_digit :: "char \<Rightarrow> bool" where
  "is_digit c = (48 \<le> (of_char c :: nat) \<and> (of_char c :: nat) \<le> 57)"

text \<open>
  A JavaScript number as far as a port needs it: NaN, an integer that a double holds
  exactly, or a double of magnitude above \<open>2^53\<close> (infinity included), whose value is not
  needed.
\<close>

datatype jsnum = NaN | Num int | Huge

text \<open>
  \<open>parseInt(str, 10)\<close> on ASCII text: leading white space, an optional sign, then the
  longest run of digits, read as a decimal number. Up to \<open>2^53\<close> the result is that
  integer; beyond, it is the integer rounded to a double.
\<close>

definition digits_value :: "string \<Rightarrow> nat" where
  "digits_value ds = foldl (\<lambda>a c. 10 * a + ((of_char c :: nat) - 48)) 0 ds"

definition parseInt10 :: "string \<Rightarrow> jsnum" where
  "parseInt10 str =
     (let t = dropWhile is_space str;
          neg = (t \<noteq> [] \<and> hd t = CHR ''-'');
          u = (if t \<noteq> [] \<and> (hd t = CHR ''-'' \<or> hd t = CHR ''+'') then tl t else t);
          ds = takeWhile is_digit u
      in if ds = [] then NaN
         else if digits_value ds \<le> 2 ^ 53 then Num ((if neg then - 1 else 1) * int (digits_value ds))
         else Huge)"

text \<open>
  Lines 156-164. \<open>[host, port] = connectTarget.split(':')\<close> takes the first two pieces;
  \<open>parseInt(port, 10) || 443\<close> replaces NaN and 0 by 443.
\<close>

definition connect_target :: "string \<Rightarrow> string option \<Rightarrow> string option \<times> jsnum" where
  "connect_target connectTarget hostHeader =
     (if CHR '':'' \<in> set connectTarget then
        (let host = takeWhile (\<lambda>c. c \<noteq> CHR '':'') connectTarget;
             port = takeWhile (\<lambda>c. c \<noteq> CHR '':'') (drop 1 (dropWhile (\<lambda>c. c \<noteq> CHR '':'') connectTarget))
         in (Some host, (case parseInt10 port of
                           NaN \<Rightarrow> Num 443
                         | Num n \<Rightarrow> if n = 0 then Num 443 else Num n
                         | Huge \<Rightarrow> Huge)))
      else (hostHeader, Num 443))"

text \<open>
  \<open>net.connect(port, host)\<close> raises ERR\_SOCKET\_BAD\_PORT unless the port is an integer in
  \<open>0 .. 65535\<close>.
\<close>

definition valid_port :: "jsnum \<Rightarrow> nat option" where
  "valid_port port =
     (case port of
        Num p \<Rightarrow> if 0 \<le> p \<and> p \<le> 65535 then Some (nat p) else None
      | _ \<Rightarrow> None)"

text \<open>\<open>clientSocket.write(x)\<close> and \<open>clientSocket.end(x)\<close> on a CONNECT request's socket.\<close>

definition cs_write :: "nat \<Rightarrow> cs_write \<Rightarrow> cstate \<Rightarrow> cstate" where
  "cs_write c x s =
     (if cs_ended (objs s ! c) \<or> cs_closed (objs s ! c) then s
      else upd_obj c (\<lambda>ob. ob\<lparr>cs_out := cs_out ob @ [x]\<rparr>) s)"

definition cs_end :: "nat \<Rightarrow> cs_write list \<Rightarrow> cstate \<Rightarrow> cstate" where
  "cs_end c xs s =
     (if cs_ended (objs s ! c) \<or> cs_closed (objs s ! c) then s
      else upd_obj c (\<lambda>ob. ob\<lparr>cs_out := cs_out ob @ xs, cs_ended := True\<rparr>) s)"

subsection \<open>processingLoop\<close>

text \<open>
  Writing an answer to \<open>current.res\<close>. A CONNECT request has no \<open>res\<close>. On a \<open>res\<close> that
  was already answered \<open>writeHead\<close> raises; the \<open>catch\<close> of line 148 or of line 202 then
  calls \<open>end\<close> with a chunk on the finished response. Node answers that call with an
  \<open>'error'\<close> event on the response unless the response is closed already; nothing
  listens for it, so the process exits once the running callback has returned.
\<close>

definition answered :: "cstate \<Rightarrow> nat \<Rightarrow> bool" where
  "answered s c = (c \<in> set (map fst (delivered s)))"

definition write_res :: "nat \<Rightarrow> answer \<Rightarrow> cstate \<Rightarrow> cstate" where
  "write_res c a s =
     (if isConnect (objs s ! c) then s
      else if answered s c then (if res_closed (objs s ! c) then s else s\<lparr>exited := True\<rparr>)
      else s\<lparr>delivered := delivered s @ [(c, a)]\<rparr>)"

text \<open>
  Lines 113-115: the call \<open>i\<close> registers its \<open>'data'\<close> and \<open>'end'\<close> listeners on
  \<open>current.req\<close> (a paused stream starts to flow) and suspends.
\<close>

definition listen_end :: "nat \<Rightarrow> cstate \<Rightarrow> cstate" where
  "listen_end i s =
     upd_obj (current (invs s ! i))
       (\<lambda>ob. ob\<lparr>req_state := (if req_state ob = Paused then Flowing else req_state ob),
               end_listeners := end_listeners ob @ [i]\<rparr>)
       (upd_inv i (\<lambda>v. v\<lparr>pc := AwaitEnd\<rparr>) s)"

text \<open>
  The call \<open>processingLoop()\<close> up to its first \<open>await\<close> (or its \<open>return\<close>). In the
  CONNECT branch \<open>net.connect\<close> raises for a port that is not valid; the \<open>catch\<close> of line
  202 then ends the client socket and lines 208-210 run, which call \<open>processingLoop\<close>
  again: the recursion is on the queue, which \<open>shift\<close> has shortened.
\<close>

function processingLoop :: "cstate \<Rightarrow> cstate" where
  "processingLoop s =
     (if processing s \<or> queue s = [] then s
      else
        (let s1 = s\<lparr>processing := True\<rparr>; c = hd (queue s) in
         if \<not> isConnect (objs s ! c) then
           (if sock_unavailable s1 then
              (let s2 = connectToOffshore s1
               in s2\<lparr>invs := invs s2 @ [\<lparr>current = c, pc = Wait200 (now s + 200)\<rparr>]\<rparr>)
            else listen_end (length (invs s1)) (s1\<lparr>invs := invs s1 @ [\<lparr>current = c, pc = AwaitEnd\<rparr>]\<rparr>))
         else
           (case connect_target (url (objs s ! c)) (host_header (objs s ! c)) of (host, port) \<Rightarrow>
              (case valid_port port of
                 None \<Rightarrow>
                   processingLoop
                     ((cs_end c [] s1)\<lparr>queue := tl (queue s), processing := False\<rparr>)
               | Some p \<Rightarrow>
                   s1\<lparr>tunnels := tunnels s1 @
                        [\<lparr>t_current = c, t_host = host, t_port = p, remote = Connecting,
                          remote_destroyed = False, piped = False, to_remote = []\<rparr>]\<rparr>))))"
  by pat_completeness auto
termination
  by (relation "measure (\<lambda>s. length (queue s))") (auto simp: cs_end_def upd_obj_def)

declare processingLoop.simps [simp del]

text \<open>Lines 208-210 (and 107-109): \<open>queue.shift(); processing = false; processingLoop()\<close>.\<close>

definition finish :: "cstate \<Rightarrow> cstate" where
  "finish s = processingLoop (s\<lparr>queue := tl (queue s), processing := False\<rparr>)"

text \<open>
  Lines 136-152 and 208-210 for the suspended call \<open>i\<close>, resumed with the value of
  \<open>promiseWithTimeout\<close>: \<open>None\<close> is \<open>undefined\<close> (the timer won).
\<close>

definition after_response :: "nat \<Rightarrow> bytes option \<Rightarrow> cstate \<Rightarrow> cstate" where
  "after_response i responsePayload s =
     (let c = current (invs s ! i);
          s1 = upd_inv i (\<lambda>v. v\<lparr>pc := Finished\<rparr>) s
      in finish (write_res c (case responsePayload of None \<Rightarrow> GatewayTimeout504
                                                     | Some p \<Rightarrow> Relayed p) s1))"

text \<open>
  The continuations released when \<open>responsePromise\<close> of request \<open>c\<close> is settled: every
  call still awaiting it resumes, in the order in which they started to wait.
\<close>

definition awaiting_response :: "cstate \<Rightarrow> nat \<Rightarrow> bool" where
  "awaiting_response s i = (case pc (invs s ! i) of AwaitResp d \<Rightarrow> True | _ \<Rightarrow> False)"

definition drain :: "nat \<Rightarrow> cstate \<Rightarrow> cstate" where
  "drain c s =
     (case settled (objs s ! c) of
        None \<Rightarrow> s
      | Some p \<Rightarrow>
          fold (\<lambda>i s'. if awaiting_response s' i then after_response i (Some p) s' else s')
               (reactions (objs s ! c)) s)"

text \<open>
  Lines 116-131 for the call \<open>i\<close>, resumed by \<open>'end'\<close>: build the envelope, write the
  type-0 frame to \<open>offshoreSocket\<close>, start the 20000 ms timer and await the response.
\<close>

definition send_request :: "nat \<Rightarrow> cstate \<Rightarrow> cstate" where
  "send_request i s =
     (let c = current (invs s ! i) in
      upd_obj c (\<lambda>ob. ob\<lparr>reactions := reactions ob @ [i]\<rparr>)
        (upd_inv i (\<lambda>v. v\<lparr>pc := AwaitResp (now s + OFFSHORE_RESPONSE_TIMEOUT_MS)\<rparr>)
           (s\<lparr>sent := sent s @ [(offshoreSocket s, c)]\<rparr>)))"

definition awaiting_end :: "cstate \<Rightarrow> nat \<Rightarrow> bool" where
  "awaiting_end s i = (pc (invs s ! i) = AwaitEnd)"

subsection \<open>The reader's callback (lines 60-68)\<close>

definition on_message :: "nat \<times> bytes \<Rightarrow> cstate \<Rightarrow> cstate" where
  "on_message m s =
     (case m of (msgType, payload) \<Rightarrow>
        if msgType \<noteq> 1 then s
        else
          (let s1 = s\<lparr>received := received s @ [payload]\<rparr> in
           if queue s1 \<noteq> [] \<and> settled (objs s1 ! hd (queue s1)) = None
           then upd_obj (hd (queue s1)) (\<lambda>ob. ob\<lparr>settled := Some payload\<rparr>) s1
           else s1))"

subsection \<open>Events and handlers\<close>

text \<open>
  What the environment can do to the agent. Clock time passes only in \<open>Tick\<close>; a timer
  event is possible once its due time is reached. A request arrives as
  \<open>Enqueue isConnect req.url req.headers.host\<close> (the \<open>'request'\<close> listener for ordinary
  requests, the \<open>'connect'\<close> listener for CONNECT).
\<close>

datatype event =
    Tick nat
  | Enqueue bool string "string option"
  | ReqEnd nat                 \<comment> \<open>\<open>'end'\<close> of the body of request \<open>c\<close>\<close>
  | SockConnect nat            \<comment> \<open>\<open>'connect'\<close> on relay socket \<open>k\<close>\<close>
  | SockError nat              \<comment> \<open>\<open>'error'\<close> on relay socket \<open>k\<close>\<close>
  | SockClose nat              \<comment> \<open>\<open>'close'\<close> on relay socket \<open>k\<close>\<close>
  | SockData nat bytes         \<comment> \<open>\<open>'data'\<close> on relay socket \<open>k\<close>\<close>
  | ReconnectFire              \<comment> \<open>the timeout held by \<open>reconnectTimer\<close> fires\<close>
  | Wake nat                   \<comment> \<open>the 200 ms timer of call \<open>i\<close> fires\<close>
  | Timeout nat                \<comment> \<open>the timer of \<open>promiseWithTimeout\<close> of call \<open>i\<close> fires\<close>
  | RemoteConnect nat          \<comment> \<open>tunnel \<open>t\<close>: \<open>net.connect\<close>'s callback\<close>
  | RemoteError nat            \<comment> \<open>tunnel \<open>t\<close>: \<open>'error'\<close> on \<open>remote\<close>\<close>
  | RemoteClose nat            \<comment> \<open>tunnel \<open>t\<close>: \<open>'close'\<close> on \<open>remote\<close>\<close>
  | RemoteData nat bytes       \<comment> \<open>tunnel \<open>t\<close>: \<open>'data'\<close> on \<open>remote\<close>\<close>
  | ClientData nat bytes       \<comment> \<open>\<open>'data'\<close> on the client socket of CONNECT request \<open>c\<close>\<close>
  | ClientSockError nat        \<comment> \<open>\<open>'error'\<close> on that socket\<close>
  | ClientSockClose nat        \<comment> \<open>\<open>'close'\<close> on that socket\<close>
  | ResClose nat               \<comment> \<open>\<open>'close'\<close> on the answered \<open>res\<close> of request \<open>c\<close>\<close>

text \<open>\<open>enqueueRequest\<close> (lines 72-88).\<close>

definition enqueueRequest :: "bool \<Rightarrow> string \<Rightarrow> string option \<Rightarrow> cstate \<Rightarrow> cstate" where
  "enqueueRequest ic u h s =
     (let requestObj = \<lparr>isConnect = ic, url = u, host_header = h, req_state = Paused,
                         end_listeners = [], settled = None, reactions = [],
                         cs_out = [], cs_ended = False, cs_closed = False,
                         res_closed = False\<rparr>;
          s1 = s\<lparr>objs := objs s @ [requestObj], queue := queue s @ [length (objs s)]\<rparr>
      in if \<not> processing s1 then processingLoop s1 else s1)"

text \<open>
  \<open>'end'\<close> of a request body: every call suspended in line 115 on this request resumes
  and sends; then, if the request's promise is already settled, each of them goes on
  with that payload at once.
\<close>

definition on_req_end :: "nat \<Rightarrow> cstate \<Rightarrow> cstate" where
  "on_req_end c s =
     drain c (fold send_request (end_listeners (objs s ! c))
                (upd_obj c (\<lambda>ob. ob\<lparr>req_state := Ended\<rparr>) s))"

text \<open>The handlers of lines 39-58.\<close>

definition on_connect :: "nat \<Rightarrow> cstate \<Rightarrow> cstate" where
  "on_connect k s =
     (let s1 = upd_sock k (\<lambda>x. x\<lparr>connected := True\<rparr>) s;
          s2 = (if reconnectTimer s1 \<noteq> None
                then s1\<lparr>reconnectTimer := None, timerArmed := False\<rparr> else s1)
      in processingLoop s2)"

definition on_error :: "nat \<Rightarrow> cstate \<Rightarrow> cstate" where
  "on_error k s =
     (let s1 = upd_sock k (\<lambda>x. x\<lparr>destroyed := True\<rparr>) s;
          s2 = (case offshoreSocket s1 of
                  None \<Rightarrow> s1
                | Some j \<Rightarrow> upd_sock j (\<lambda>x. x\<lparr>destroyed := True\<rparr>) s1)
      in schedule_reconnect s2)"

definition on_close :: "nat \<Rightarrow> cstate \<Rightarrow> cstate" where
  "on_close k s =
     schedule_reconnect
       ((upd_sock k (\<lambda>x. x\<lparr>destroyed := True, closed := True\<rparr>) s)\<lparr>processing := False\<rparr>)"

text \<open>
  The data handler of the reader (framing.js) with the callback of lines 60-68, and
  then the continuations of the calls that await the head's promise.
\<close>

definition on_sock_data :: "nat \<Rightarrow> bytes \<Rightarrow> cstate \<Rightarrow> cstate" where
  "on_sock_data k chunk s =
     (let r = on_data (rbuf (socks s ! k)) chunk;
          s1 = upd_sock k (\<lambda>x. x\<lparr>rbuf := snd r\<rparr>) s;
          s2 = fold on_message (fst r) s1
      in if queue s2 = [] then s2 else drain (hd (queue s2)) s2)"

text \<open>Lines 101-111 for the call \<open>i\<close>, after its 200 ms.\<close>

definition on_wake :: "nat \<Rightarrow> cstate \<Rightarrow> cstate" where
  "on_wake i s =
     (if sock_unavailable s
      then finish (write_res (current (invs s ! i)) Unavailable502
                     (upd_inv i (\<lambda>v. v\<lparr>pc := Finished\<rparr>) s))
      else listen_end i s)"

text \<open>The handlers of the CONNECT branch (lines 168-198).\<close>

definition on_remote_connect :: "nat \<Rightarrow> cstate \<Rightarrow> cstate" where
  "on_remote_connect t s =
     upd_tunnel t (\<lambda>x. x\<lparr>remote := Open, piped := True\<rparr>)
       (cs_write (t_current (tunnels s ! t)) Established200 s)"

definition on_remote_error :: "nat \<Rightarrow> cstate \<Rightarrow> cstate" where
  "on_remote_error t s =
     cs_end (t_current (tunnels s ! t)) [BadGateway502]
       (upd_tunnel t (\<lambda>x. x\<lparr>remote_destroyed := True\<rparr>) s)"

definition on_remote_close :: "nat \<Rightarrow> cstate \<Rightarrow> cstate" where
  "on_remote_close t s =
     finish (cs_end (t_current (tunnels s ! t)) []
               (upd_tunnel t (\<lambda>x. x\<lparr>remote := Closed, remote_destroyed := True\<rparr>) s))"

definition on_remote_data :: "nat \<Rightarrow> bytes \<Rightarrow> cstate \<Rightarrow> cstate" where
  "on_remote_data t bs s = cs_write (t_current (tunnels s ! t)) (Piped bs) s"

definition tunnel_flows :: "cstate \<Rightarrow> nat \<Rightarrow> nat \<Rightarrow> bool" where
  "tunnel_flows s c t =
     (t_current (tunnels s ! t) = c \<and> piped (tunnels s ! t) \<and>
      remote (tunnels s ! t) = Open \<and> \<not> remote_destroyed (tunnels s ! t))"

definition on_client_data :: "nat \<Rightarrow> bytes \<Rightarrow> cstate \<Rightarrow> cstate" where
  "on_client_data c bs s =
     fold (\<lambda>t s'. if tunnel_flows s' c t
                  then upd_tunnel t (\<lambda>x. x\<lparr>to_remote := to_remote x @ bs\<rparr>) s' else s')
          [0..<length (tunnels s)] s"

definition on_client_error :: "nat \<Rightarrow> cstate \<Rightarrow> cstate" where
  "on_client_error c s =
     fold (\<lambda>t s'. if t_current (tunnels s' ! t) = c
                  then upd_tunnel t (\<lambda>x. x\<lparr>remote_destroyed := True\<rparr>) s' else s')
          [0..<length (tunnels s)] s"

definition on_client_close :: "nat \<Rightarrow> cstate \<Rightarrow> cstate" where
  "on_client_close c s =
     fold (\<lambda>t s'. if t_current (tunnels s' ! t) = c
                  then finish (upd_tunnel t (\<lambda>x. x\<lparr>remote_destroyed := True\<rparr>) s') else s')
          [0..<length (tunnels s)]
          (upd_obj c (\<lambda>ob. ob\<lparr>cs_closed := True\<rparr>) s)"

text \<open>
  One step: \<open>None\<close> when the event cannot happen in this state (the process has
  exited, no such object, a timer that is not due, a socket that is gone).
\<close>

definition wake_due :: "cstate \<Rightarrow> nat \<Rightarrow> bool" where
  "wake_due s i =
     (i < length (invs s) \<and> (case pc (invs s ! i) of Wait200 d \<Rightarrow> d \<le> now s | _ \<Rightarrow> False))"

definition timeout_due :: "cstate \<Rightarrow> nat \<Rightarrow> bool" where
  "timeout_due s i =
     (i < length (invs s) \<and> (case pc (invs s ! i) of AwaitResp d \<Rightarrow> d \<le> now s | _ \<Rightarrow> False))"

definition reconnect_due :: "cstate \<Rightarrow> bool" where
  "reconnect_due s =
     (timerArmed s \<and> (case reconnectTimer s of None \<Rightarrow> False | Some d \<Rightarrow> d \<le> now s))"

definition connect_request :: "cstate \<Rightarrow> nat \<Rightarrow> bool" where
  "connect_request s c = (c < length (objs s) \<and> isConnect (objs s ! c))"

definition step :: "event \<Rightarrow> cstate \<Rightarrow> cstate option" where
  "step ev s =
     (if exited s then None
      else case ev of
        Tick d \<Rightarrow> Some (s\<lparr>now := now s + d\<rparr>)
      | Enqueue ic u h \<Rightarrow> Some (enqueueRequest ic u h s)
      | ReqEnd c \<Rightarrow>
          if c < length (objs s) \<and> req_state (objs s ! c) = Flowing
          then Some (on_req_end c s) else None
      | SockConnect k \<Rightarrow>
          if k < length (socks s) \<and> \<not> connected (socks s ! k) \<and> \<not> destroyed (socks s ! k)
          then Some (on_connect k s) else None
      | SockError k \<Rightarrow>
          if k < length (socks s) \<and> \<not> destroyed (socks s ! k)
          then Some (on_error k s) else None
      | SockClose k \<Rightarrow>
          if k < length (socks s) \<and> \<not> closed (socks s ! k)
          then Some (on_close k s) else None
      | SockData k chunk \<Rightarrow>
          if k < length (socks s) \<and> connected (socks s ! k) \<and> \<not> destroyed (socks s ! k)
          then Some (on_sock_data k chunk s) else None
      | ReconnectFire \<Rightarrow>
          if reconnect_due s then Some (connectToOffshore (s\<lparr>timerArmed := False\<rparr>)) else None
      | Wake i \<Rightarrow> if wake_due s i then Some (on_wake i s) else None
      | Timeout i \<Rightarrow> if timeout_due s i then Some (after_response i None s) else None
      | RemoteConnect t \<Rightarrow>
          if t < length (tunnels s) \<and> remote (tunnels s ! t) = Connecting \<and>
             \<not> remote_destroyed (tunnels s ! t)
          then Some (on_remote_connect t s) else None
      | RemoteError t \<Rightarrow>
          if t < length (tunnels s) \<and> remote (tunnels s ! t) \<noteq> Closed \<and>
             \<not> remote_destroyed (tunnels s ! t)
          then Some (on_remote_error t s) else None
      | RemoteClose t \<Rightarrow>
          if t < length (tunnels s) \<and> remote (tunnels s ! t) \<noteq> Closed
          then Some (on_remote_close t s) else None
      | RemoteData t bs \<Rightarrow>
          if t < length (tunnels s) \<and> remote (tunnels s ! t) = Open \<and>
             \<not> remote_destroyed (tunnels s ! t)
          then Some (on_remote_data t bs s) else None
      | ClientData c bs \<Rightarrow>
          if connect_request s c \<and> \<not> cs_closed (objs s ! c) \<and>
             (\<exists>t \<in> set [0..<length (tunnels s)]. tunnel_flows s c t)
          then Some (on_client_data c bs s) else None
      | ClientSockError c \<Rightarrow>
          if connect_request s c \<and> \<not> cs_closed (objs s ! c)
          then Some (on_client_error c s) else None
      | ClientSockClose c \<Rightarrow>
          if connect_request s c \<and> \<not> cs_closed (objs s ! c)
          then Some (on_client_close c s) else None
      | ResClose c \<Rightarrow>
          if c < length (objs s) \<and> answered s c \<and> \<not> res_closed (objs s ! c)
          then Some (upd_obj c (\<lambda>ob. ob\<lparr>res_closed := True\<rparr>) s) else None)"

fun run :: "event list \<Rightarrow> cstate \<Rightarrow> cstate option" where
  "run [] s = Some s"
| "run (ev # evs) s = (case step ev s of None \<Rightarrow> None | Some s' \<Rightarrow> run evs s')"

text \<open>
  The state when the proxy server starts to listen (line 233): nothing queued, and the
  first \<open>connectToOffshore()\<close> has made socket 0.
\<close>

definition init :: cstate where
  "init = connectToOffshore
     \<lparr>now = 0, objs = [], queue = [], processing = False, offshoreSocket = None, socks = [],
      reconnectTimer = None, timerArmed = False, invs = [], tunnels = [],
      sent = [], delivered = [], received = [], exited = False\<rparr>"

section \<open>The relay (the server file, src/unnamed/part\_000)\<close>

text \<open>
  The relay is one event loop as well. Its variables are \<open>clientSocket\<close>,
  \<open>requestQueue\<close> and \<open>processing\<close>. The queue holds the payload buffers; each carries
  here the number of pushes before it, so that one buffer can be followed through the
  run. An outbound call (\<open>lib.request\<close> or \<open>net.connect\<close>) that \<open>handleRequestQueue\<close>
  started lives on with its handlers, whatever happens to the queue.
\<close>

subsection \<open>Envelopes and the platform\<close>

text \<open>
  The response envelope, as an object with the three properties the code reads and
  writes; \<open>None\<close> is a property that is missing (or falsy, which \<open>||\<close> treats alike).
\<close>

record envelope =
  statusCode :: "int option"
  headers :: "(string \<times> string) list option"
  body :: "string option"

text \<open>
  What the synchronous part of \<open>handleRequestQueue\<close>'s \<open>try\<close> block does with a payload:
  it raises before any call is made (\<open>JSON.parse\<close> fails, a property has the wrong
  type), it takes the CONNECT branch, it makes the HTTP(S) request, or it makes the
  request and then raises while writing the body.
\<close>

datatype req_class = Throws | ConnectReq | HttpReq | HttpReqThrows

text \<open>
  The functions of the JavaScript platform that the two programs call and that are not
  part of the repository: \<open>JSON.parse\<close> with the property tests of lines 41-44 and the
  calls up to line 118 (\<open>classify\<close>), \<open>JSON.stringify\<close> and \<open>JSON.parse\<close> on response
  envelopes, the base64 conversions of \<open>Buffer\<close>, and the test that \<open>writeHead\<close> makes
  of the names and values of the headers it is given (\<open>valid_headers\<close>).
\<close>

record platform =
  classify :: "bytes \<Rightarrow> req_class"
  stringify :: "envelope \<Rightarrow> bytes"
  parse :: "bytes \<Rightarrow> envelope option"
  base64 :: "bytes \<Rightarrow> string"
  unbase64 :: "string \<Rightarrow> bytes"
  valid_headers :: "(string \<times> string) list \<Rightarrow> bool"

subsection \<open>State\<close>

record rsock =
  r_accepted :: bool     \<comment> \<open>\<open>handleClient\<close> kept it and registered its handlers\<close>
  r_destroyed :: bool
  r_closed :: bool
  r_ended :: bool        \<comment> \<open>\<open>socket.end()\<close> was called on it (an extra client)\<close>
  r_buf :: bytes         \<comment> \<open>\<open>buffer\<close> of its data handler\<close>
  r_out :: bytes         \<comment> \<open>the bytes written to it\<close>

datatype call_kind = HttpCall | ConnectCall
datatype call_state = Pending | Established | Errored | Done

record call =
  c_msg :: nat           \<comment> \<open>the queue entry it was started for\<close>
  c_kind :: call_kind
  c_state :: call_state

text \<open>
  \<open>replies\<close> is a log: the type-1 frames written to a socket, as (socket, entry the
  call was started for, payload). \<open>crashed\<close> is set by an exception that no handler
  catches.
\<close>

record rstate =
  clientSocket :: "nat option"
  requestQueue :: "(nat \<times> bytes) list"
  r_processing :: bool
  rsocks :: "rsock list"
  calls :: "call list"
  pushes :: nat
  replies :: "(nat \<times> nat \<times> bytes) list"
  crashed :: bool

definition upd_rsock :: "nat \<Rightarrow> (rsock \<Rightarrow> rsock) \<Rightarrow> rstate \<Rightarrow> rstate" where
  "upd_rsock k f s = s\<lparr>rsocks := (rsocks s)[k := f (rsocks s ! k)]\<rparr>"

definition upd_call :: "nat \<Rightarrow> (call \<Rightarrow> call) \<Rightarrow> rstate \<Rightarrow> rstate" where
  "upd_call j f s = s\<lparr>calls := (calls s)[j := f (calls s ! j)]\<rparr>"

text \<open>\<open>!clientSocket || clientSocket.destroyed\<close>\<close>

definition client_gone :: "rstate \<Rightarrow> bool" where
  "client_gone s =
     (case clientSocket s of None \<Rightarrow> True | Some k \<Rightarrow> r_destroyed (rsocks s ! k))"

text \<open>
  \<open>sendFramedMessage(clientSocket, msgType, payloadBuffer)\<close> on behalf of queue entry
  \<open>m\<close>: nothing without a live socket; otherwise the frame, built as in \<open>sendMessage\<close>,
  is written to the socket that \<open>clientSocket\<close> names now.
\<close>

definition sendFramedMessage :: "nat \<Rightarrow> nat \<Rightarrow> bytes \<Rightarrow> rstate \<Rightarrow> error + rstate" where
  "sendFramedMessage m msgType payloadBuffer s =
     (case clientSocket s of
        None \<Rightarrow> Inr s
      | Some k \<Rightarrow>
          if r_destroyed (rsocks s ! k) then Inr s
          else
            (case writeUInt32BE (length payloadBuffer) of
               Inl e \<Rightarrow> Inl e
             | Inr len \<Rightarrow>
                 Inr ((upd_rsock k (\<lambda>x. x\<lparr>r_out := r_out x @ len @ [of_nat msgType] @ payloadBuffer\<rparr>) s)
                        \<lparr>replies := replies s @ [(k, m, payloadBuffer)]\<rparr>)))"

subsection \<open>handleRequestQueue and cleanupRequest\<close>

text \<open>
  \<open>handleRequestQueue\<close> up to its \<open>return\<close>; \<open>cleanupRequest\<close> calls it back, on a queue
  that \<open>shift\<close> has shortened.
\<close>

function handleRequestQueue :: "platform \<Rightarrow> rstate \<Rightarrow> rstate" where
  "handleRequestQueue P s =
     (if r_processing s \<or> requestQueue s = [] \<or> client_gone s then s
      else
        (let s1 = s\<lparr>r_processing := True\<rparr>; m = fst (hd (requestQueue s));
             msg = snd (hd (requestQueue s))
         in case classify P msg of
              Throws \<Rightarrow>
                handleRequestQueue P (s1\<lparr>r_processing := False, requestQueue := tl (requestQueue s1)\<rparr>)
            | ConnectReq \<Rightarrow>
                s1\<lparr>calls := calls s1 @ [\<lparr>c_msg = m, c_kind = ConnectCall, c_state = Pending\<rparr>]\<rparr>
            | HttpReq \<Rightarrow>
                s1\<lparr>calls := calls s1 @ [\<lparr>c_msg = m, c_kind = HttpCall, c_state = Pending\<rparr>]\<rparr>
            | HttpReqThrows \<Rightarrow>
                handleRequestQueue P
                  (s1\<lparr>calls := calls s1 @ [\<lparr>c_msg = m, c_kind = HttpCall, c_state = Pending\<rparr>],
                      r_processing := False, requestQueue := tl (requestQueue s1)\<rparr>)))"
  by pat_completeness auto
termination
  by (relation "measure (\<lambda>(P, s). length (requestQueue s))") auto

declare handleRequestQueue.simps [simp del]

definition cleanupRequest :: "platform \<Rightarrow> rstate \<Rightarrow> rstate" where
  "cleanupRequest P s =
     handleRequestQueue P (s\<lparr>r_processing := False, requestQueue := tl (requestQueue s)\<rparr>)"

subsection \<open>handleClient and its handlers\<close>

text \<open>\<open>requestQueue.push(msg)\<close>\<close>

definition push_request :: "bytes \<Rightarrow> rstate \<Rightarrow> rstate" where
  "push_request msg s =
     s\<lparr>requestQueue := requestQueue s @ [(pushes s, msg)], pushes := pushes s + 1\<rparr>"

text \<open>
  The \<open>while\<close> loop of the data handler (lines 145-161) on the state and the
  accumulated buffer.
\<close>

function relay_loop :: "platform \<Rightarrow> rstate \<Rightarrow> bytes \<Rightarrow> rstate \<times> bytes" where
  "relay_loop P s buffer =
     (if length buffer \<ge> 5 then
        (let len = readUInt32BE buffer in
         if length buffer \<ge> len + 5 then
           (let msgType = unat (buffer ! 4) in
            if msgType \<noteq> 0 then relay_loop P s (drop (5 + len) buffer)
            else
              (let msg = take len (drop 5 buffer)
               in relay_loop P (handleRequestQueue P (push_request msg s)) (drop (5 + len) buffer)))
         else (s, buffer))
      else (s, buffer))"
  by pat_completeness auto
termination
  by (relation "measure (\<lambda>(P, s, buffer). length buffer)") auto

declare relay_loop.simps [simp del]

definition on_rdata :: "platform \<Rightarrow> nat \<Rightarrow> bytes \<Rightarrow> rstate \<Rightarrow> rstate" where
  "on_rdata P k chunk s =
     (let r = relay_loop P s (r_buf (rsocks s ! k) @ chunk)
      in upd_rsock k (\<lambda>x. x\<lparr>r_buf := snd r\<rparr>) (fst r))"

text \<open>\<open>handleClient(socket)\<close> for a new inbound connection (lines 132-140).\<close>

definition handleClient :: "rstate \<Rightarrow> rstate" where
  "handleClient s =
     (if clientSocket s \<noteq> None
      then s\<lparr>rsocks := rsocks s @ [\<lparr>r_accepted = False, r_destroyed = False, r_closed = False,
                                     r_ended = True, r_buf = [], r_out = []\<rparr>]\<rparr>
      else s\<lparr>rsocks := rsocks s @ [\<lparr>r_accepted = True, r_destroyed = False, r_closed = False,
                                     r_ended = False, r_buf = [], r_out = []\<rparr>],
             clientSocket := Some (length (rsocks s))\<rparr>)"

text \<open>The close handler (lines 168-173).\<close>

definition on_rclose :: "nat \<Rightarrow> rstate \<Rightarrow> rstate" where
  "on_rclose k s =
     (upd_rsock k (\<lambda>x. x\<lparr>r_destroyed := True, r_closed := True\<rparr>) s)
       \<lparr>clientSocket := None, r_processing := False, requestQueue := []\<rparr>"

text \<open>
  The handlers of an outbound call \<open>j\<close>. An exception in one of them (only
  \<open>writeUInt32BE\<close> can raise) is caught by nobody.
\<close>

definition reply_and_cleanup :: "platform \<Rightarrow> nat \<Rightarrow> bytes \<Rightarrow> rstate \<Rightarrow> rstate" where
  "reply_and_cleanup P j payload s =
     (case sendFramedMessage (c_msg (calls s ! j)) 1 payload s of
        Inl e \<Rightarrow> s\<lparr>crashed := True\<rparr>
      | Inr s' \<Rightarrow> cleanupRequest P s')"

text \<open>Lines 91-100: the response of the origin server has ended.\<close>

definition on_http_done ::
  "platform \<Rightarrow> nat \<Rightarrow> int \<Rightarrow> (string \<times> string) list \<Rightarrow> bytes \<Rightarrow> rstate \<Rightarrow> rstate" where
  "on_http_done P j sc hs b s =
     reply_and_cleanup P j
       (stringify P \<lparr>statusCode = Some sc, headers = Some hs, body = Some (base64 P b)\<rparr>)
       (upd_call j (\<lambda>x. x\<lparr>c_state := Done\<rparr>) s)"

text \<open>Lines 103-112: \<open>forwardReq\<close> emitted \<open>'error'\<close> with message \<open>msg\<close>.\<close>

definition errorResp :: "platform \<Rightarrow> bytes \<Rightarrow> bytes" where
  "errorResp P msg = stringify P \<lparr>statusCode = Some 502, headers = Some [], body = Some (base64 P msg)\<rparr>"

definition on_http_error :: "platform \<Rightarrow> nat \<Rightarrow> bytes \<Rightarrow> rstate \<Rightarrow> rstate" where
  "on_http_error P j msg s =
     reply_and_cleanup P j (errorResp P msg) (upd_call j (\<lambda>x. x\<lparr>c_state := Errored\<rparr>) s)"

text \<open>Lines 49-63: the CONNECT branch's socket (\<open>'OK'\<close> and \<open>'FAIL'\<close> in ASCII).\<close>

definition on_conn_established :: "nat \<Rightarrow> rstate \<Rightarrow> rstate" where
  "on_conn_established j s =
     (case sendFramedMessage (c_msg (calls s ! j)) 1 [79, 75] (upd_call j (\<lambda>x. x\<lparr>c_state := Established\<rparr>) s) of
        Inl e \<Rightarrow> s\<lparr>crashed := True\<rparr>
      | Inr s' \<Rightarrow> s')"

definition on_conn_error :: "platform \<Rightarrow> nat \<Rightarrow> rstate \<Rightarrow> rstate" where
  "on_conn_error P j s =
     reply_and_cleanup P j [70, 65, 73, 76] (upd_call j (\<lambda>x. x\<lparr>c_state := Errored\<rparr>) s)"

definition on_conn_close :: "platform \<Rightarrow> nat \<Rightarrow> rstate \<Rightarrow> rstate" where
  "on_conn_close P j s = cleanupRequest P (upd_call j (\<lambda>x. x\<lparr>c_state := Done\<rparr>) s)"

subsection \<open>Events\<close>

datatype revent =
    RAccept                                          \<comment> \<open>a new inbound connection\<close>
  | RData nat bytes                                  \<comment> \<open>\<open>'data'\<close> on socket \<open>k\<close>\<close>
  | RSockError nat                                   \<comment> \<open>\<open>'error'\<close> on socket \<open>k\<close>\<close>
  | RClose nat                                       \<comment> \<open>\<open>'close'\<close> on socket \<open>k\<close>\<close>
  | HttpDone nat int "(string \<times> string) list" bytes  \<comment> \<open>call \<open>j\<close>: status, headers, body\<close>
  | HttpError nat bytes                              \<comment> \<open>call \<open>j\<close>: \<open>err.message\<close>\<close>
  | ConnEstablished nat
  | ConnError nat
  | ConnClose nat

definition call_is :: "rstate \<Rightarrow> nat \<Rightarrow> call_kind \<Rightarrow> bool" where
  "call_is s j kd = (j < length (calls s) \<and> c_kind (calls s ! j) = kd)"

definition rstep :: "platform \<Rightarrow> revent \<Rightarrow> rstate \<Rightarrow> rstate option" where
  "rstep P ev s =
     (if crashed s then None
      else case ev of
        RAccept \<Rightarrow> Some (handleClient s)
      | RData k chunk \<Rightarrow>
          if k < length (rsocks s) \<and> r_accepted (rsocks s ! k) \<and> \<not> r_destroyed (rsocks s ! k)
          then Some (on_rdata P k chunk s) else None
      | RSockError k \<Rightarrow>
          if k < length (rsocks s) \<and> r_accepted (rsocks s ! k) \<and> \<not> r_destroyed (rsocks s ! k)
          then Some (upd_rsock k (\<lambda>x. x\<lparr>r_destroyed := True\<rparr>) s) else None
      | RClose k \<Rightarrow>
          if k < length (rsocks s) \<and> r_accepted (rsocks s ! k) \<and> \<not> r_closed (rsocks s ! k)
          then Some (on_rclose k s) else None
      | HttpDone j sc hs b \<Rightarrow>
          if call_is s j HttpCall \<and> c_state (calls s ! j) = Pending
          then Some (on_http_done P j sc hs b s) else None
      | HttpError j msg \<Rightarrow>
          if call_is s j HttpCall \<and> c_state (calls s ! j) = Pending
          then Some (on_http_error P j msg s) else None
      | ConnEstablished j \<Rightarrow>
          if call_is s j ConnectCall \<and> c_state (calls s ! j) = Pending
          then Some (on_conn_established j s) else None
      | ConnError j \<Rightarrow>
          if call_is s j ConnectCall \<and> c_state (calls s ! j) \<in> {Pending, Established}
          then Some (on_conn_error P j s) else None
      | ConnClose j \<Rightarrow>
          if call_is s j ConnectCall \<and> c_state (calls s ! j) \<noteq> Done
          then Some (on_conn_close P j s) else None)"

fun rrun :: "platform \<Rightarrow> revent list \<Rightarrow> rstate \<Rightarrow> rstate option" where
  "rrun P [] s = Some s"
| "rrun P (ev # evs) s = (case rstep P ev s of None \<Rightarrow> None | Some s' \<Rightarrow> rrun P evs s')"

definition rinit :: rstate where
  "rinit = \<lparr>clientSocket = None, requestQueue = [], r_processing = False, rsocks = [],
            calls = [], pushes = 0, replies = [], crashed = False\<rparr>"

subsection \<open>What the local client sees\<close>

text \<open>
  The response a local client receives for an answer (lines 104-105, 139-140 and
  143-151); \<open>isHead\<close> says that the request's method is HEAD. \<open>writeHead\<close> raises for a
  status code outside 100..999, before it stores anything, and for an invalid header
  name or value, after it has stored the status code; the \<open>catch\<close> of line 148 then ends
  the response with \<open>'Bad Gateway'\<close> under the status stored so far (200 at first) and
  without the envelope's headers. Node sends no body in answer to HEAD and with the
  status codes 204, 304 and 100..199.
\<close>

definition ascii :: "string \<Rightarrow> bytes" where
  "ascii str = map (\<lambda>c. of_nat (of_char c)) str"

record http_response =
  status :: int
  resp_headers :: "(string \<times> string) list"
  resp_body :: bytes

definition no_body :: "bool \<Rightarrow> int \<Rightarrow> bool" where
  "no_body isHead sc = (isHead \<or> sc = 204 \<or> sc = 304 \<or> (100 \<le> sc \<and> sc \<le> 199))"

definition respond :: "bool \<Rightarrow> int \<Rightarrow> (string \<times> string) list \<Rightarrow> bytes \<Rightarrow> http_response" where
  "respond isHead sc hs b =
     \<lparr>status = sc, resp_headers = hs, resp_body = (if no_body isHead sc then [] else b)\<rparr>"

definition render :: "platform \<Rightarrow> bool \<Rightarrow> answer \<Rightarrow> http_response" where
  "render P isHead a =
     (case a of
        Unavailable502 \<Rightarrow> respond isHead 502 [] (ascii ''Bad Gateway: offshore unavailable'')
      | GatewayTimeout504 \<Rightarrow> respond isHead 504 [] (ascii ''Gateway Timeout'')
      | Relayed p \<Rightarrow>
          (case parse P p of
             None \<Rightarrow> respond isHead 200 [] (ascii ''Bad Gateway'')
           | Some responseObj \<Rightarrow>
               (let sc = (case statusCode responseObj of None \<Rightarrow> 200
                          | Some n \<Rightarrow> if n = 0 then 200 else n);
                    hs = (case headers responseObj of None \<Rightarrow> [] | Some h \<Rightarrow> h);
                    b = (case body responseObj of None \<Rightarrow> [] | Some t \<Rightarrow> t)
                in if sc < 100 \<or> 999 < sc then respond isHead 200 [] (ascii ''Bad Gateway'')
                   else if \<not> valid_headers P hs then respond isHead sc [] (ascii ''Bad Gateway'')
                   else respond isHead sc hs (unbase64 P b))))"

subsection \<open>A small platform for examples\<close>

text \<open>
  A stand-in for the platform functions, used where a concrete run is evaluated: every
  request payload is an ordinary HTTP request, an envelope is written as its status
  code in two bytes followed by its body, base64 is replaced by the identity on
  character codes, and every header passes.
\<close>

definition example_platform :: platform where
  "example_platform =
     \<lparr>classify = (\<lambda>msg. HttpReq),
      stringify = (\<lambda>e. (case statusCode e of None \<Rightarrow> [0, 0]
                             | Some n \<Rightarrow> [of_int (n div 256), of_int (n mod 256)]) @
                        ascii (case body e of None \<Rightarrow> [] | Some t \<Rightarrow> t)),
      parse = (\<lambda>b. case b of
                       x # y # xs \<Rightarrow>
                         Some \<lparr>statusCode = Some (uint x * 256 + uint y), headers = Some [],
                               body = Some (map (\<lambda>c. char_of (unat c)) xs)\<rparr>
                     | _ \<Rightarrow> None),
      base64 = (\<lambda>b. map (\<lambda>c. char_of (unat c)) b),
      unbase64 = ascii,
      valid_headers = (\<lambda>hs. True)\<rparr>"

section \<open>Well-formedness of the local agent's state\<close>

text \<open>
  The facts about the stores that every reachable state satisfies: the queue holds
  references to existing requests in the order of their creation, none of them answered
  yet; the \<open>current\<close> of a suspended call is a plain request that is the head of the
  queue or has left it; listeners and promise reactions belong to calls on that very
  request; a frame was only ever written for a plain request whose body has ended.
\<close>

definition wf_queue :: "cstate \<Rightarrow> bool" where
  "wf_queue s =
     (sorted_wrt (<) (queue s) \<and>
      (\<forall>c \<in> set (queue s). c < length (objs s) \<and> \<not> answered s c))"

definition wf_inv :: "cstate \<Rightarrow> nat \<Rightarrow> bool" where
  "wf_inv s i =
     (current (invs s ! i) < length (objs s) \<and>
      \<not> isConnect (objs s ! current (invs s ! i)) \<and>
      (\<forall>c \<in> set (queue s). current (invs s ! i) \<le> c))"

definition wf_listeners :: "cstate \<Rightarrow> bool" where
  "wf_listeners s =
     (\<forall>c < length (objs s).
        \<forall>i \<in> set (end_listeners (objs s ! c)) \<union> set (reactions (objs s ! c)).
          i < length (invs s) \<and> current (invs s ! i) = c)"

definition wf_logs :: "cstate \<Rightarrow> bool" where
  "wf_logs s =
     ((\<forall>x \<in> set (sent s).
         snd x < length (objs s) \<and> req_state (objs s ! snd x) = Ended \<and>
         \<not> isConnect (objs s ! snd x)) \<and>
      (\<forall>x \<in> set (delivered s). fst x < length (objs s)))"

definition wf :: "cstate \<Rightarrow> bool" where
  "wf s = (wf_queue s \<and> (\<forall>i < length (invs s). wf_inv s i) \<and> wf_listeners s \<and> wf_logs s)"

text \<open>Updates of an object that leave the fields of the invariant alone.\<close>

definition keeps_core :: "(requestObj \<Rightarrow> requestObj) \<Rightarrow> bool" where
  "keeps_core f = (\<forall>ob. isConnect (f ob) = isConnect ob \<and> req_state (f ob) = req_state ob \<and>
      end_listeners (f ob) = end_listeners ob \<and> reactions (f ob) = reactions ob)"

section \<open>Well-formedness of the relay's state\<close>

text \<open>
  The facts about the relay that every reachable state satisfies. At most one accepted
  socket is not closed, and it is \<open>clientSocket\<close>. Queue entries carry their arrival
  numbers in increasing order. Calls were started in the order of arrival, each for an
  entry that is not behind any entry still queued, and for an entry before all of them
  when \<open>processing\<close> is clear. A reply was only ever written by a call.
\<close>

definition rwf :: "rstate \<Rightarrow> bool" where
  "rwf s =
     ((\<forall>k < length (rsocks s).
         r_accepted (rsocks s ! k) \<and> \<not> r_closed (rsocks s ! k) \<longrightarrow> clientSocket s = Some k) \<and>
      (\<forall>k < length (rsocks s). r_closed (rsocks s ! k) \<longrightarrow> r_destroyed (rsocks s ! k)) \<and>
      sorted_wrt (<) (map fst (requestQueue s)) \<and>
      (\<forall>x \<in> set (requestQueue s). fst x < pushes s) \<and>
      sorted_wrt (<) (map c_msg (calls s)) \<and>
      (\<forall>c \<in> set (calls s). c_msg c < pushes s \<and>
         (\<forall>x \<in> set (requestQueue s). c_msg c \<le> fst x \<and> (\<not> r_processing s \<longrightarrow> c_msg c < fst x))) \<and>
      (\<forall>r \<in> set (replies s). fst (snd r) \<in> c_msg ` set (calls s)))"

text \<open>
  Entry \<open>m\<close> has arrived, is not queued, and no call was started for it.
\<close>

definition dropped :: "nat \<Rightarrow> rstate \<Rightarrow> bool" where
  "dropped m s =
     (m < pushes s \<and> m \<notin> fst ` set (requestQueue s) \<and> m \<notin> c_msg ` set (calls s))"

text \<open>No connection, nothing queued, nothing in progress.\<close>

definition idle :: "rstate \<Rightarrow> bool" where
  "idle s = (clientSocket s = None \<and> requestQueue s = [] \<and> \<not> r_processing s)"

section \<open>Facts about the codec\<close>

lemma unat_byte_of_nat: "unat (of_nat n :: byte) = n mod 256"
  by (simp add: unat_of_nat)

lemma be32_lin:
  fixes v :: nat
  shows "v = x1 * 256 + m0 \<Longrightarrow> x1 = x2 * 256 + m1 \<Longrightarrow> x2 = x3 * 256 + m2 \<Longrightarrow>
     x3 * 16777216 + m2 * 65536 + m1 * 256 + m0 = v"
  by simp

lemma be32_sum:
  fixes v :: nat
  assumes "v < 2 ^ 32"
  shows "(v div 2 ^ 24 mod 256) * 2 ^ 24 + (v div 2 ^ 16 mod 256) * 2 ^ 16
           + (v div 2 ^ 8 mod 256) * 2 ^ 8 + v mod 256 = v"
proof -
  have d: "v div 256 div 256 div 256 < 256" using assms by simp
  have e: "v div 2 ^ 8 = v div 256" "v div 2 ^ 16 = v div 256 div 256" 
     "v div 2 ^ 24 = v div 256 div 256 div 256"
    by (simp_all add: div_mult2_eq[symmetric])
  have "v div 256 div 256 div 256 * 16777216 + v div 256 div 256 mod 256 * 65536
         + v div 256 mod 256 * 256 + v mod 256 = v"
    by (rule be32_lin) simp_all
  then show ?thesis unfolding e using d by simp
qed

lemma readUInt32BE_bytes:
  "readUInt32BE (a # b # c # d # rest) = unat a * 2 ^ 24 + unat b * 2 ^ 16 + unat c * 2 ^ 8 + unat d"
  by (simp add: readUInt32BE_def)

lemma read_write:
  assumes "writeUInt32BE v = Inr l"
  shows "readUInt32BE (l @ rest) = v \<and> length l = 4"
proof -
  from assms have v: "v < 2 ^ 32"
    and l: "l = [of_nat (v div 2 ^ 24), of_nat (v div 2 ^ 16), of_nat (v div 2 ^ 8), of_nat v]"
    by (simp_all add: writeUInt32BE_def split: if_splits)
  have "readUInt32BE (l @ rest) =
      (v div 2 ^ 24 mod 256) * 2 ^ 24 + (v div 2 ^ 16 mod 256) * 2 ^ 16
           + (v div 2 ^ 8 mod 256) * 2 ^ 8 + v mod 256"
    unfolding l by (simp only: append_Cons append_Nil readUInt32BE_bytes unat_byte_of_nat)
  also have "\<dots> = v" by (rule be32_sum[OF v])
  finally show ?thesis by (simp add: l)
qed

lemma reader_loop_short: "length b < 5 \<Longrightarrow> reader_loop b = ([], b)"
  by (subst reader_loop.simps) simp

lemma reader_loop_incomplete:
  "length b < readUInt32BE b + 5 \<Longrightarrow> reader_loop b = ([], b)"
  by (subst reader_loop.simps) simp

lemma readUInt32BE_append: "4 \<le> length a \<Longrightarrow> readUInt32BE (a @ b) = readUInt32BE a"
  by (auto simp: readUInt32BE_def nth_append)

lemma reader_loop_complete:
  assumes "5 \<le> length b" "readUInt32BE b + 5 \<le> length b"
  shows "reader_loop b =
     ((unat (b ! 4), take (readUInt32BE b) (drop 5 b)) # fst (reader_loop (drop (5 + readUInt32BE b) b)),
      snd (reader_loop (drop (5 + readUInt32BE b) b)))"
  using assms by (subst reader_loop.simps) (simp add: Let_def)

lemma reader_loop_frame:
  assumes "sendMessage t p = Inr f"
  shows "reader_loop (f @ rest) = ((t mod 256, p) # fst (reader_loop rest), snd (reader_loop rest))"
proof -
  from assms obtain l where l: "writeUInt32BE (length p) = Inr l" and f: "f = l @ [of_nat t] @ p"
    by (auto simp: sendMessage_def split: sum.splits)
  from read_write[OF l] have len: "length l = 4"
    and rd: "readUInt32BE (f @ rest) = length p"
    by (simp_all add: f)
  have lf: "length f = 5 + length p" by (simp add: f len)
  have a: "(f @ rest) ! 4 = of_nat t" by (simp add: f len nth_append)
  have b: "take (length p) (drop 5 (f @ rest)) = p" by (simp add: f len)
  have c: "drop (5 + length p) (f @ rest) = rest" by (simp add: f len)
  have "5 \<le> length (f @ rest)" "readUInt32BE (f @ rest) + 5 \<le> length (f @ rest)"
    by (simp_all add: rd lf)
  from reader_loop_complete[OF this] show ?thesis
    by (simp only: rd a b c unat_byte_of_nat)
qed

lemma reader_loop_append:
  "reader_loop (a @ b) =
     (fst (reader_loop a) @ fst (reader_loop (snd (reader_loop a) @ b)),
      snd (reader_loop (snd (reader_loop a) @ b)))"
proof (induction a rule: reader_loop.induct)
  case (1 buffer)
  show ?case
  proof (cases "5 \<le> length buffer \<and> readUInt32BE buffer + 5 \<le> length buffer")
    case True
    define n where "n = readUInt32BE buffer"
    define r where "r = drop (5 + n) buffer"
    from True have rd: "readUInt32BE (buffer @ b) = n"
      by (simp add: readUInt32BE_append n_def)
    have c1: "reader_loop (buffer @ b) =
       ((unat (buffer ! 4), take n (drop 5 buffer)) # fst (reader_loop (r @ b)),
        snd (reader_loop (r @ b)))"
      using True reader_loop_complete[of "buffer @ b"] by (simp add: rd nth_append n_def r_def)
    have c2: "reader_loop buffer =
       ((unat (buffer ! 4), take n (drop 5 buffer)) # fst (reader_loop r), snd (reader_loop r))"
      using True reader_loop_complete[of buffer] by (simp add: n_def r_def)
    from True have ih: "reader_loop (r @ b) =
       (fst (reader_loop r) @ fst (reader_loop (snd (reader_loop r) @ b)),
        snd (reader_loop (snd (reader_loop r) @ b)))"
      using "1.IH"[OF _ refl _ refl refl] by (simp add: n_def r_def)
    show ?thesis
      by (simp add: c1 c2 ih)
  next
    case False
    then have "reader_loop buffer = ([], buffer)"
      by (subst reader_loop.simps) auto
    then show ?thesis by simp
  qed
qed

lemma reader_loop_residue: "reader_loop (snd (reader_loop b)) = ([], snd (reader_loop b))"
proof (induction b rule: reader_loop.induct)
  case (1 buffer)
  show ?case
  proof (cases "5 \<le> length buffer \<and> readUInt32BE buffer + 5 \<le> length buffer")
    case True
    then show ?thesis
      using "1.IH"[OF _ refl _ refl refl] by (simp add: reader_loop_complete[of buffer])
  next
    case False
    then have "reader_loop buffer = ([], buffer)"
      by (subst reader_loop.simps) auto
    then show ?thesis by simp
  qed
qed

lemma feed_reader_loop:
  "reader_loop b = ([], b) \<Longrightarrow> feed b chunks = reader_loop (b @ concat chunks)"
proof (induction chunks arbitrary: b)
  case Nil
  then show ?case by simp
next
  case (Cons c cs)
  have "feed (snd (reader_loop (b @ c))) cs = reader_loop (snd (reader_loop (b @ c)) @ concat cs)"
    by (rule Cons.IH) (rule reader_loop_residue)
  moreover have "reader_loop (b @ c @ concat cs) =
     (fst (reader_loop (b @ c)) @ fst (reader_loop (snd (reader_loop (b @ c)) @ concat cs)),
      snd (reader_loop (snd (reader_loop (b @ c)) @ concat cs)))"
    using reader_loop_append[of "b @ c" "concat cs"] by simp
  ultimately show ?case
    by (simp add: on_data_def Let_def)
qed

text \<open>
  C3 (round-trip law). \<open>sendMessage\<close> produces bytes for every payload whose length
  fits the 32-bit length field (beyond that \<open>writeUInt32BE\<close> raises and nothing is
  written). Whenever it produces bytes, a fresh reader that receives exactly these bytes
  calls \<open>onMessage\<close> once, with the encoded type tag (as a byte) and the encoded payload,
  and its buffer is empty afterwards.
\<close>

theorem C3_round_trip:
  "(length payload < 2 ^ 32 \<longrightarrow> (\<exists>bs. sendMessage t payload = Inr bs)) \<and>
   (\<forall>bs. sendMessage t payload = Inr bs \<longrightarrow>
      on_data [] bs = ([(t mod 256, payload)], []) \<and>
      (t < 256 \<longrightarrow> on_data [] bs = ([(t, payload)], [])))"
proof (intro conjI allI impI)
  assume "length payload < 2 ^ 32"
  then show "\<exists>bs. sendMessage t payload = Inr bs"
    by (simp add: sendMessage_def writeUInt32BE_def)
next
  fix bs assume bs: "sendMessage t payload = Inr bs"
  have "reader_loop [] = ([], [])" by (rule reader_loop_short) simp
  with reader_loop_frame[OF bs, of "[]"]
  show m: "on_data [] bs = ([(t mod 256, payload)], [])"
    by (simp add: on_data_def)
  assume "t < 256"
  with m show "on_data [] bs = ([(t, payload)], [])" by simp
qed

theorem C3_round_trip_witness:
  "sendMessage 1 [72, 105] = Inr [0, 0, 0, 2, 1, 72, 105] \<and>
   on_data [] [0, 0, 0, 2, 1, 72, 105] = ([(1, [72, 105])], [])"
proof -
  have s: "sendMessage 1 [72, 105] = Inr [0, 0, 0, 2, 1, 72, 105]"
    by (simp add: sendMessage_def writeUInt32BE_def)
  with C3_round_trip[of "[72, 105]" 1] show ?thesis by simp
qed

section \<open>Fragmentation and unknown frame types\<close>

lemma sendMessage_length:
  "sendMessage t p = Inr f \<Longrightarrow> length f = 5 + length p \<and> readUInt32BE (f @ rest) = length p"
proof -
  assume a: "sendMessage t p = Inr f"
  then obtain l where l: "writeUInt32BE (length p) = Inr l" and f: "f = l @ [of_nat t] @ p"
    by (auto simp: sendMessage_def split: sum.splits)
  from read_write[OF l, of "[of_nat t] @ p @ rest"] show ?thesis by (simp add: f)
qed

lemma readUInt32BE_take: "4 \<le> n \<Longrightarrow> readUInt32BE (take n b) = readUInt32BE b"
  by (simp add: readUInt32BE_def)

lemma frame_prefix_incomplete:
  assumes f: "sendMessage t p = Inr f" and n: "n < length f"
  shows "length (take n f) < 5 \<or> length (take n f) < readUInt32BE (take n f) + 5"
proof (cases "n < 5")
  case True
  then show ?thesis using n by simp
next
  case False
  from sendMessage_length[OF f, of "[]"] have lf: "length f = 5 + length p" and rd: "readUInt32BE f = length p"
    by simp_all
  have "readUInt32BE (take n f) = length p"
    using False rd by (simp add: readUInt32BE_take)
  then show ?thesis using n lf by simp
qed

lemma reader_loop_stop:
  "length b < 5 \<or> length b < readUInt32BE b + 5 \<Longrightarrow> reader_loop b = ([], b)"
  by (subst reader_loop.simps) auto

lemma reader_loop_frames:
  "send_all ms = Inr w \<Longrightarrow>
   reader_loop (w @ x) = (as_read ms @ fst (reader_loop x), snd (reader_loop x))"
proof (induction ms arbitrary: w)
  case Nil
  then show ?case by (simp add: as_read_def)
next
  case (Cons m ms)
  from Cons.prems obtain f r where f: "sendMessage (fst m) (snd m) = Inr f"
    and r: "send_all ms = Inr r" and w: "w = f @ r"
    by (auto split: sum.splits)
  from reader_loop_frame[OF f, of "r @ x"] Cons.IH[OF r]
  show ?case by (simp add: w as_read_def)
qed

subsection \<open>The relay's loop\<close>

lemma relay_loop_stop:
  "length b < 5 \<or> length b < readUInt32BE b + 5 \<Longrightarrow> relay_loop P s b = (s, b)"
  by (subst relay_loop.simps) auto

lemma relay_loop_complete:
  assumes "5 \<le> length b" "readUInt32BE b + 5 \<le> length b"
  shows "relay_loop P s b =
     (if unat (b ! 4) \<noteq> 0 then relay_loop P s (drop (5 + readUInt32BE b) b)
      else relay_loop P (handleRequestQueue P (push_request (take (readUInt32BE b) (drop 5 b)) s))
             (drop (5 + readUInt32BE b) b))"
  using assms by (subst relay_loop.simps) (simp add: Let_def)

lemma relay_loop_frame:
  assumes "sendMessage t p = Inr f"
  shows "relay_loop P s (f @ rest) =
     (if t mod 256 \<noteq> 0 then relay_loop P s rest
      else relay_loop P (handleRequestQueue P (push_request p s)) rest)"
proof -
  from assms obtain l where l: "writeUInt32BE (length p) = Inr l" and f: "f = l @ [of_nat t] @ p"
    by (auto simp: sendMessage_def split: sum.splits)
  from read_write[OF l] have len: "length l = 4"
    and rd: "readUInt32BE (f @ rest) = length p"
    by (simp_all add: f)
  have lf: "length f = 5 + length p" by (simp add: f len)
  have a: "(f @ rest) ! 4 = of_nat t" by (simp add: f len nth_append)
  have b: "take (length p) (drop 5 (f @ rest)) = p" by (simp add: f len)
  have c: "drop (5 + length p) (f @ rest) = rest" by (simp add: f len)
  have "5 \<le> length (f @ rest)" "readUInt32BE (f @ rest) + 5 \<le> length (f @ rest)"
    by (simp_all add: rd lf)
  from relay_loop_complete[OF this] show ?thesis
    by (simp only: rd a b c unat_byte_of_nat)
qed

lemma relay_loop_append:
  "relay_loop P s (a @ b) = relay_loop P (fst (relay_loop P s a)) (snd (relay_loop P s a) @ b)"
proof (induction P s a rule: relay_loop.induct)
  case (1 P s buffer)
  show ?case
  proof (cases "5 \<le> length buffer \<and> readUInt32BE buffer + 5 \<le> length buffer")
    case True
    define n where "n = readUInt32BE buffer"
    define r where "r = drop (5 + n) buffer"
    define s' where "s' = handleRequestQueue P (push_request (take n (drop 5 buffer)) s)"
    from True have rd: "readUInt32BE (buffer @ b) = n"
      by (simp add: readUInt32BE_append n_def)
    have c1: "relay_loop P s (buffer @ b) =
       (if unat (buffer ! 4) \<noteq> 0 then relay_loop P s (r @ b) else relay_loop P s' (r @ b))"
      using True relay_loop_complete[of "buffer @ b" P s]
      by (simp add: rd nth_append n_def r_def s'_def)
    have c2: "relay_loop P s buffer =
       (if unat (buffer ! 4) \<noteq> 0 then relay_loop P s r else relay_loop P s' r)"
      using True relay_loop_complete[of buffer P s] by (simp add: n_def r_def s'_def)
    show ?thesis
    proof (cases "unat (buffer ! 4) \<noteq> 0")
      case t: True
      from True t have "relay_loop P s (r @ b) =
          relay_loop P (fst (relay_loop P s r)) (snd (relay_loop P s r) @ b)"
        using "1.IH"(1)[OF _ refl _ refl] by (simp add: n_def r_def)
      with t show ?thesis by (simp add: c1 c2)
    next
      case t: False
      from True t have "relay_loop P s' (r @ b) =
          relay_loop P (fst (relay_loop P s' r)) (snd (relay_loop P s' r) @ b)"
        using "1.IH"(2)[OF _ refl _ refl _ refl] by (simp add: n_def r_def s'_def)
      with t show ?thesis by (simp add: c1 c2)
    qed
  next
    case False
    then have "relay_loop P s buffer = (s, buffer)"
      by (intro relay_loop_stop) auto
    then show ?thesis by simp
  qed
qed


lemma relay_loop_residue:
  "relay_loop P (fst (relay_loop P s a)) (snd (relay_loop P s a)) = relay_loop P s a"
proof (induction P s a rule: relay_loop.induct)
  case (1 P s buffer)
  show ?case
  proof (cases "5 \<le> length buffer \<and> readUInt32BE buffer + 5 \<le> length buffer")
    case True
    show ?thesis
    proof (cases "unat (buffer ! 4) \<noteq> 0")
      case t: True
      with True "1.IH"(1)[OF _ refl _ refl] show ?thesis
        by (simp add: relay_loop_complete[of buffer])
    next
      case t: False
      with True "1.IH"(2)[OF _ refl _ refl _ refl] show ?thesis
        by (simp add: relay_loop_complete[of buffer])
    qed
  next
    case False
    then have "relay_loop P s buffer = (s, buffer)"
      by (intro relay_loop_stop) auto
    then show ?thesis by simp
  qed
qed

text \<open>The loop neither reads nor changes the reader buffers of the sockets.\<close>

lemma handleRequestQueue_rsocks [simp]: "rsocks (handleRequestQueue P s) = rsocks s"
proof (induction P s rule: handleRequestQueue.induct)
  case (1 P s)
  show ?case
  proof (cases "r_processing s \<or> requestQueue s = [] \<or> client_gone s")
    case True
    then show ?thesis by (subst handleRequestQueue.simps) auto
  next
    case False
    then show ?thesis
      using "1.IH"(1)[OF _ refl refl refl] "1.IH"(2)[OF _ refl refl refl]
      by (subst handleRequestQueue.simps) (auto simp: Let_def split: req_class.splits)
  qed
qed

lemma handleRequestQueue_rsocks_upd:
  assumes "\<And>j. clientSocket s = Some j \<Longrightarrow> r_destroyed (rs ! j) = r_destroyed (rsocks s ! j)"
  shows "handleRequestQueue P (s\<lparr>rsocks := rs\<rparr>) = (handleRequestQueue P s)\<lparr>rsocks := rs\<rparr>"
  using assms
proof (induction P s rule: handleRequestQueue.induct)
  case (1 P s)
  have g: "client_gone (s\<lparr>rsocks := rs\<rparr>) = client_gone s"
    using "1.prems" by (auto simp: client_gone_def split: option.splits)
  have c1: "\<And>q. s\<lparr>rsocks := rs, r_processing := False, requestQueue := q\<rparr> =
                 s\<lparr>r_processing := False, requestQueue := q, rsocks := rs\<rparr>"
    by simp
  have c2: "\<And>q c. s\<lparr>rsocks := rs, calls := c, r_processing := False, requestQueue := q\<rparr> =
                 s\<lparr>calls := c, r_processing := False, requestQueue := q, rsocks := rs\<rparr>"
    by simp
  show ?case
  proof (cases "r_processing s \<or> requestQueue s = [] \<or> client_gone s")
    case True
    then show ?thesis
      by (subst (1 2) handleRequestQueue.simps) (auto simp: g)
  next
    case False
    show ?thesis
    proof (cases "classify P (snd (hd (requestQueue s)))")
      case Throws
      with False "1.IH"(1)[OF _ refl refl refl] "1.prems" show ?thesis
        by (subst (1 2) handleRequestQueue.simps) (simp add: g Let_def c1)
    next
      case ConnectReq
      with False show ?thesis
        by (subst (1 2) handleRequestQueue.simps) (simp add: g Let_def)
    next
      case HttpReq
      with False show ?thesis
        by (subst (1 2) handleRequestQueue.simps) (simp add: g Let_def)
    next
      case HttpReqThrows
      with False "1.IH"(2)[OF _ refl refl refl] "1.prems" show ?thesis
        by (subst (1 2) handleRequestQueue.simps) (simp add: g Let_def c2)
    qed
  qed
qed

lemma handleRequestQueue_r_buf:
  "handleRequestQueue P (upd_rsock k (\<lambda>x. x\<lparr>r_buf := v\<rparr>) s) =
   upd_rsock k (\<lambda>x. x\<lparr>r_buf := v\<rparr>) (handleRequestQueue P s)"
proof -
  have "\<And>j. r_destroyed ((rsocks s)[k := (rsocks s ! k)\<lparr>r_buf := v\<rparr>] ! j) = r_destroyed (rsocks s ! j)"
    by (cases "k < length (rsocks s)") (auto simp: nth_list_update list_update_beyond)
  from handleRequestQueue_rsocks_upd[of s "(rsocks s)[k := (rsocks s ! k)\<lparr>r_buf := v\<rparr>]", OF this]
  show ?thesis
    by (simp add: upd_rsock_def)
qed

lemma push_request_r_buf:
  "push_request m (upd_rsock k (\<lambda>x. x\<lparr>r_buf := v\<rparr>) s) =
   upd_rsock k (\<lambda>x. x\<lparr>r_buf := v\<rparr>) (push_request m s)"
  by (simp add: push_request_def upd_rsock_def)

lemma relay_loop_r_buf:
  "relay_loop P (upd_rsock k (\<lambda>x. x\<lparr>r_buf := v\<rparr>) s) b =
   (upd_rsock k (\<lambda>x. x\<lparr>r_buf := v\<rparr>) (fst (relay_loop P s b)), snd (relay_loop P s b))"
proof (induction P s b rule: relay_loop.induct)
  case (1 P s buffer)
  let ?u = "upd_rsock k (\<lambda>x. x\<lparr>r_buf := v\<rparr>)"
  show ?case
  proof (cases "5 \<le> length buffer \<and> readUInt32BE buffer + 5 \<le> length buffer")
    case True
    show ?thesis
    proof (cases "unat (buffer ! 4) \<noteq> 0")
      case t: True
      with True "1.IH"(1)[OF _ refl _ refl] show ?thesis
        by (simp add: relay_loop_complete[of buffer])
    next
      case t: False
      with True "1.IH"(2)[OF _ refl _ refl _ refl] show ?thesis
        by (simp add: relay_loop_complete[of buffer] push_request_r_buf handleRequestQueue_r_buf)
    qed
  next
    case False
    then have "\<And>s. relay_loop P s buffer = (s, buffer)"
      by (intro relay_loop_stop) auto
    then show ?thesis by simp
  qed
qed

lemma relay_loop_rsocks [simp]: "rsocks (fst (relay_loop P s b)) = rsocks s"
proof (induction P s b rule: relay_loop.induct)
  case (1 P s buffer)
  show ?case
  proof (cases "5 \<le> length buffer \<and> readUInt32BE buffer + 5 \<le> length buffer")
    case True
    show ?thesis
    proof (cases "unat (buffer ! 4) \<noteq> 0")
      case t: True
      with True "1.IH"(1)[OF _ refl _ refl] show ?thesis
        by (simp add: relay_loop_complete[of buffer])
    next
      case t: False
      with True "1.IH"(2)[OF _ refl _ refl _ refl] show ?thesis
        by (simp add: relay_loop_complete[of buffer] push_request_def)
    qed
  next
    case False
    then have "relay_loop P s buffer = (s, buffer)"
      by (intro relay_loop_stop) auto
    then show ?thesis by simp
  qed
qed

lemma on_rdata_rsocks_length [simp]: "length (rsocks (on_rdata P k c s)) = length (rsocks s)"
  by (simp add: on_rdata_def Let_def upd_rsock_def)

lemma upd_rsock_twice:
  "upd_rsock k (\<lambda>x. x\<lparr>r_buf := w\<rparr>) (upd_rsock k (\<lambda>x. x\<lparr>r_buf := v\<rparr>) s) =
   upd_rsock k (\<lambda>x. x\<lparr>r_buf := w\<rparr>) s"
  by (cases "k < length (rsocks s)") (simp_all add: upd_rsock_def list_update_beyond)

lemma on_rdata_two_chunks:
  assumes k: "k < length (rsocks s)"
  shows "on_rdata P k b (on_rdata P k a s) = on_rdata P k (a @ b) s"
proof -
  define buf where "buf = r_buf (rsocks s ! k)"
  define r where "r = relay_loop P s (buf @ a)"
  let ?u = "\<lambda>v. upd_rsock k (\<lambda>x. x\<lparr>r_buf := v\<rparr>)"
  have s1: "on_rdata P k a s = ?u (snd r) (fst r)"
    by (simp add: on_rdata_def Let_def buf_def r_def)
  have kr: "k < length (rsocks (fst r))" using k by (simp add: r_def)
  have b1: "r_buf (rsocks (?u (snd r) (fst r)) ! k) = snd r"
    using kr by (simp add: upd_rsock_def)
  have "on_rdata P k b (on_rdata P k a s) =
      (let q = relay_loop P (?u (snd r) (fst r)) (snd r @ b) in ?u (snd q) (fst q))"
    unfolding s1 by (simp add: on_rdata_def[of P k b] b1 Let_def)
  also have "\<dots> = (let q = relay_loop P (fst r) (snd r @ b) in ?u (snd q) (fst q))"
    by (simp add: relay_loop_r_buf Let_def upd_rsock_twice)
  also have "relay_loop P (fst r) (snd r @ b) = relay_loop P s ((buf @ a) @ b)"
    unfolding r_def by (rule relay_loop_append[symmetric])
  finally show ?thesis
    by (simp add: on_rdata_def Let_def buf_def)
qed

lemma on_rdata_chunks:
  "chunks \<noteq> [] \<Longrightarrow> k < length (rsocks s) \<Longrightarrow>
   fold (on_rdata P k) chunks s = on_rdata P k (concat chunks) s"
proof (induction chunks arbitrary: s)
  case Nil
  then show ?case by simp
next
  case (Cons c cs)
  show ?case
  proof (cases "cs = []")
    case True
    then show ?thesis by simp
  next
    case False
    from Cons.IH[OF False, of "on_rdata P k c s"] Cons.prems(2)
    show ?thesis by (simp add: on_rdata_two_chunks)
  qed
qed

section \<open>Fragmentation invariance and unknown frame types\<close>

lemma on_message_other: "t \<noteq> 1 \<Longrightarrow> on_message (t, p) s = s"
  by (simp add: on_message_def)

text \<open>
  C4 (fragmentation invariance). Whatever the partition of a byte stream into chunks, a
  fresh reader that receives the chunks one at a time reports the same messages, and
  keeps the same rest, as a reader that receives the whole stream in one chunk; the
  relay's data handler, fed the chunks one at a time, ends in the same state as when fed
  the whole stream. A proper prefix of a frame that follows complete frames is kept in
  the buffer and nothing is reported for it: the reader reports the complete frames
  only, and the relay's loop leaves its state alone.
\<close>

theorem C4_fragmentation:
  "feed [] chunks = on_data [] (concat chunks) \<and>
   (chunks \<noteq> [] \<and> k < length (rsocks s) \<longrightarrow>
      fold (on_rdata P k) chunks s = on_rdata P k (concat chunks) s) \<and>
   (send_all ms = Inr w \<and> sendMessage t p = Inr f \<and> n < length f \<and>
    concat chunks = w @ take n f \<longrightarrow>
      feed [] chunks = (as_read ms, take n f)) \<and>
   (sendMessage t p = Inr f \<and> n < length f \<longrightarrow> relay_loop P s (take n f) = (s, take n f))"
proof (intro conjI impI)
  have e: "reader_loop [] = ([], [])" by (rule reader_loop_short) simp
  show a: "feed [] chunks = on_data [] (concat chunks)"
    using feed_reader_loop[OF e, of chunks] by (simp add: on_data_def)
  {
    assume h: "send_all ms = Inr w \<and> sendMessage t p = Inr f \<and> n < length f \<and>
      concat chunks = w @ take n f"
    then have "reader_loop (take n f) = ([], take n f)"
      by (intro reader_loop_stop frame_prefix_incomplete[of t p]) simp_all
    with h reader_loop_frames[of ms w "take n f"]
    show "feed [] chunks = (as_read ms, take n f)"
      by (simp add: a on_data_def)
  }
  {
    assume "chunks \<noteq> [] \<and> k < length (rsocks s)"
    then show "fold (on_rdata P k) chunks s = on_rdata P k (concat chunks) s"
      by (simp add: on_rdata_chunks)
  }
  {
    assume "sendMessage t p = Inr f \<and> n < length f"
    then show "relay_loop P s (take n f) = (s, take n f)"
      by (intro relay_loop_stop frame_prefix_incomplete[of t p]) simp_all
  }
qed

theorem C4_fragmentation_witness:
  "feed [] [[0, 0, 0], [2, 1, 72], [105, 0, 0]] = ([(1, [72, 105])], [0, 0]) \<and>
   fold (on_rdata example_platform 0) [[0, 0, 0, 1], [0, 65, 0]] (handleClient rinit) =
     on_rdata example_platform 0 [0, 0, 0, 1, 0, 65, 0] (handleClient rinit) \<and>
   relay_loop example_platform rinit [0, 0, 0, 2, 0, 72] = (rinit, [0, 0, 0, 2, 0, 72])"
proof -
  have s: "sendMessage 0 [72, 105] = Inr [0, 0, 0, 2, 0, 72, 105]"
    "sendMessage 0 [] = Inr [0, 0, 0, 0, 0]"
    by (simp_all add: sendMessage_def writeUInt32BE_def)
  have w: "send_all [(1, [72, 105])] = Inr [0, 0, 0, 2, 1, 72, 105]"
    by (simp add: sendMessage_def writeUInt32BE_def)
  note t = C4_fragmentation[of "[[0, 0, 0], [2, 1, 72], [105, 0, 0]]" 0 "handleClient rinit"
      example_platform "[(1, [72, 105])]" "[0, 0, 0, 2, 1, 72, 105]" 0 "[]" "[0, 0, 0, 0, 0]" 2]
  note u = C4_fragmentation[of "[[0, 0, 0, 1], [0, 65, 0]]" 0 "handleClient rinit"
      example_platform "[]" "[]" 0 "[72, 105]" "[0, 0, 0, 2, 0, 72, 105]" 6]
  have "feed [] [[0, 0, 0], [2, 1, 72], [105, 0, 0]] =
      (as_read [(1, [72, 105])], take 2 [0, 0, 0, 0, 0])"
    by (rule t[THEN conjunct2, THEN conjunct2, THEN conjunct1, rule_format])
       (use w s in simp)
  then have a: "feed [] [[0, 0, 0], [2, 1, 72], [105, 0, 0]] = ([(1, [72, 105])], [0, 0])"
    by (simp only: as_read_def list.map fst_conv snd_conv take_Suc_Cons take_0 numeral_2_eq_2)
       simp
  have b: "fold (on_rdata example_platform 0) [[0, 0, 0, 1], [0, 65, 0]] (handleClient rinit) =
     on_rdata example_platform 0 (concat [[0, 0, 0, 1], [0, 65, 0]]) (handleClient rinit)"
    by (rule u[THEN conjunct2, THEN conjunct1, rule_format])
       (simp add: handleClient_def rinit_def)
  note v = C4_fragmentation[of "[]" 0 rinit
      example_platform "[]" "[]" 0 "[72, 105]" "[0, 0, 0, 2, 0, 72, 105]" 6]
  have "relay_loop example_platform rinit (take 6 [0, 0, 0, 2, 0, 72, 105]) =
      (rinit, take 6 [0, 0, 0, 2, 0, 72, 105])"
    by (rule v[THEN conjunct2, THEN conjunct2, THEN conjunct2, rule_format]) (use s in simp)
  then have c: "relay_loop example_platform rinit [0, 0, 0, 2, 0, 72] = (rinit, [0, 0, 0, 2, 0, 72])"
    by simp
  from a b c show ?thesis by simp
qed

section \<open>The invariant holds in every reachable state\<close>

lemmas wf_defs = wf_def wf_queue_def wf_inv_def wf_listeners_def wf_logs_def answered_def

lemma wf_core_eq:
  "queue s' = queue s \<Longrightarrow> objs s' = objs s \<Longrightarrow> invs s' = invs s \<Longrightarrow>
   delivered s' = delivered s \<Longrightarrow> sent s' = sent s \<Longrightarrow> wf s' = wf s"
  by (simp add: wf_defs)

lemma wf_init: "wf init"
  by (simp add: wf_defs init_def connectToOffshore_def sock_unavailable_def)

lemma upd_obj_nth:
  "objs (upd_obj c f s) ! d = (if d = c \<and> c < length (objs s) then f (objs s ! c) else objs s ! d)"
  by (cases "c < length (objs s)") (auto simp: upd_obj_def list_update_beyond)

lemma upd_obj_fields [simp]:
  "queue (upd_obj c f s) = queue s" "invs (upd_obj c f s) = invs s"
  "delivered (upd_obj c f s) = delivered s" "sent (upd_obj c f s) = sent s"
  "length (objs (upd_obj c f s)) = length (objs s)" "processing (upd_obj c f s) = processing s"
  "tunnels (upd_obj c f s) = tunnels s" "socks (upd_obj c f s) = socks s"
  "offshoreSocket (upd_obj c f s) = offshoreSocket s" "now (upd_obj c f s) = now s"
  "received (upd_obj c f s) = received s"
  by (simp_all add: upd_obj_def)

lemma upd_inv_fields [simp]:
  "queue (upd_inv i f s) = queue s" "objs (upd_inv i f s) = objs s"
  "delivered (upd_inv i f s) = delivered s" "sent (upd_inv i f s) = sent s"
  "length (invs (upd_inv i f s)) = length (invs s)" "processing (upd_inv i f s) = processing s"
  "tunnels (upd_inv i f s) = tunnels s" "socks (upd_inv i f s) = socks s"
  "offshoreSocket (upd_inv i f s) = offshoreSocket s" "now (upd_inv i f s) = now s"
  "received (upd_inv i f s) = received s"
  by (simp_all add: upd_inv_def)

lemma upd_inv_nth:
  "invs (upd_inv i f s) ! j = (if j = i \<and> i < length (invs s) then f (invs s ! i) else invs s ! j)"
  by (cases "i < length (invs s)") (auto simp: upd_inv_def list_update_beyond)

lemma keeps_core_nth:
  assumes "keeps_core f"
  shows "isConnect (objs (upd_obj c f s) ! d) = isConnect (objs s ! d)"
    "req_state (objs (upd_obj c f s) ! d) = req_state (objs s ! d)"
    "end_listeners (objs (upd_obj c f s) ! d) = end_listeners (objs s ! d)"
    "reactions (objs (upd_obj c f s) ! d) = reactions (objs s ! d)"
  using assms by (simp_all add: upd_obj_nth keeps_core_def)

lemma wf_upd_obj:
  assumes "keeps_core f"
  shows "wf (upd_obj c f s) = wf s"
  unfolding wf_defs by (simp add: keeps_core_nth[OF assms])

lemma current_upd_inv_pc [simp]:
  "current (invs (upd_inv i (\<lambda>v. v\<lparr>pc := p\<rparr>) s) ! j) = current (invs s ! j)"
  by (simp add: upd_inv_nth)

lemma wf_upd_inv_pc: "wf (upd_inv i (\<lambda>v. v\<lparr>pc := p\<rparr>) s) = wf s"
  unfolding wf_defs by simp

lemma wf_shift: "wf s \<Longrightarrow> wf (s\<lparr>queue := tl (queue s), processing := b\<rparr>)"
  unfolding wf_defs
  by (cases "queue s") auto

lemma wf_spawn:
  assumes "wf s" "queue s \<noteq> []" "\<not> isConnect (objs s ! hd (queue s))"
  shows "wf (s\<lparr>invs := invs s @ [\<lparr>current = hd (queue s), pc = p\<rparr>]\<rparr>)"
  using assms unfolding wf_defs
  by (cases "queue s") (auto simp: nth_append less_Suc_eq)




lemma wfI:
  assumes "sorted_wrt (<) (queue s)"
    and "\<And>c. c \<in> set (queue s) \<Longrightarrow> c < length (objs s) \<and> \<not> answered s c"
    and "\<And>i. i < length (invs s) \<Longrightarrow> wf_inv s i"
    and "\<And>c i. c < length (objs s) \<Longrightarrow>
           i \<in> set (end_listeners (objs s ! c)) \<or> i \<in> set (reactions (objs s ! c)) \<Longrightarrow>
           i < length (invs s) \<and> current (invs s ! i) = c"
    and "\<And>x. x \<in> set (sent s) \<Longrightarrow>
           snd x < length (objs s) \<and> req_state (objs s ! snd x) = Ended \<and> \<not> isConnect (objs s ! snd x)"
    and "\<And>x. x \<in> set (delivered s) \<Longrightarrow> fst x < length (objs s)"
  shows "wf s"
  using assms unfolding wf_def wf_queue_def wf_listeners_def wf_logs_def by blast

lemma wf_sorted: "wf s \<Longrightarrow> sorted_wrt (<) (queue s)"
  by (simp add: wf_def wf_queue_def)

lemma wf_queueD: "wf s \<Longrightarrow> c \<in> set (queue s) \<Longrightarrow> c < length (objs s) \<and> \<not> answered s c"
  by (simp add: wf_def wf_queue_def)

lemma wf_invD: "wf s \<Longrightarrow> i < length (invs s) \<Longrightarrow> wf_inv s i"
  by (simp add: wf_def)

lemma wf_listenersD:
  "wf s \<Longrightarrow> c < length (objs s) \<Longrightarrow>
   i \<in> set (end_listeners (objs s ! c)) \<or> i \<in> set (reactions (objs s ! c)) \<Longrightarrow>
   i < length (invs s) \<and> current (invs s ! i) = c"
  unfolding wf_def wf_listeners_def by blast

lemma wf_sentD:
  "wf s \<Longrightarrow> x \<in> set (sent s) \<Longrightarrow>
   snd x < length (objs s) \<and> req_state (objs s ! snd x) = Ended \<and> \<not> isConnect (objs s ! snd x)"
  unfolding wf_def wf_logs_def by blast

lemma wf_deliveredD: "wf s \<Longrightarrow> x \<in> set (delivered s) \<Longrightarrow> fst x < length (objs s)"
  unfolding wf_def wf_logs_def by blast

lemma wf_transfer:
  assumes w: "wf s"
    and q: "sorted_wrt (<) (queue s')" "set (queue s') \<subseteq> set (queue s)"
    and l: "length (objs s') = length (objs s)"
    and ic: "\<And>d. isConnect (objs s' ! d) = isConnect (objs s ! d)"
    and rs: "\<And>d. req_state (objs s ! d) = Ended \<Longrightarrow> req_state (objs s' ! d) = Ended"
    and li: "length (invs s) \<le> length (invs s')"
    and cur: "\<And>j. j < length (invs s) \<Longrightarrow> current (invs s' ! j) = current (invs s ! j)"
    and new: "\<And>j. length (invs s) \<le> j \<Longrightarrow> j < length (invs s') \<Longrightarrow> wf_inv s' j"
    and ls: "\<And>d j. d < length (objs s) \<Longrightarrow>
         j \<in> set (end_listeners (objs s' ! d)) \<or> j \<in> set (reactions (objs s' ! d)) \<Longrightarrow>
         (j \<in> set (end_listeners (objs s ! d)) \<or> j \<in> set (reactions (objs s ! d))) \<or>
         (j < length (invs s') \<and> current (invs s' ! j) = d)"
    and st: "\<And>x. x \<in> set (sent s') \<Longrightarrow> x \<in> set (sent s) \<or>
         (snd x < length (objs s) \<and> req_state (objs s' ! snd x) = Ended \<and> \<not> isConnect (objs s ! snd x))"
    and dl: "\<And>x. x \<in> set (delivered s') \<Longrightarrow> x \<in> set (delivered s) \<or>
         (fst x < length (objs s) \<and> fst x \<notin> set (queue s'))"
  shows "wf s'"
proof (rule wfI)
  show "sorted_wrt (<) (queue s')" by (rule q)
next
  fix c assume c: "c \<in> set (queue s')"
  with q have c': "c \<in> set (queue s)" by blast
  from wf_queueD[OF w c'] have a: "c < length (objs s)" "\<not> answered s c" by simp_all
  have "\<not> answered s' c"
  proof
    assume "answered s' c"
    then obtain x where x: "x \<in> set (delivered s')" "fst x = c" by (auto simp: answered_def)
    from dl[OF x(1)] x(2) c a(2) show False by (auto simp: answered_def)
  qed
  with a show "c < length (objs s') \<and> \<not> answered s' c" by (simp add: l)
next
  fix j assume j: "j < length (invs s')"
  show "wf_inv s' j"
  proof (cases "j < length (invs s)")
    case True
    from wf_invD[OF w True] have a: "current (invs s ! j) < length (objs s)"
      "\<not> isConnect (objs s ! current (invs s ! j))" "\<forall>c \<in> set (queue s). current (invs s ! j) \<le> c"
      by (simp_all add: wf_inv_def)
    with q(2) show ?thesis unfolding wf_inv_def cur[OF True] l ic by blast
  next
    case False
    with j new show ?thesis by simp
  qed
next
  fix d j assume d: "d < length (objs s')"
    and j: "j \<in> set (end_listeners (objs s' ! d)) \<or> j \<in> set (reactions (objs s' ! d))"
  from d have d': "d < length (objs s)" by (simp add: l)
  from ls[OF d' j] show "j < length (invs s') \<and> current (invs s' ! j) = d"
  proof
    assume "j \<in> set (end_listeners (objs s ! d)) \<or> j \<in> set (reactions (objs s ! d))"
    from wf_listenersD[OF w d' this] have "j < length (invs s)" "current (invs s ! j) = d" by simp_all
    with li cur[of j] show ?thesis by simp
  qed simp
next
  fix x assume "x \<in> set (sent s')"
  from st[OF this] show "snd x < length (objs s') \<and> req_state (objs s' ! snd x) = Ended \<and>
      \<not> isConnect (objs s' ! snd x)"
  proof
    assume "x \<in> set (sent s)"
    from wf_sentD[OF w this] show ?thesis by (simp add: l ic rs)
  qed (simp add: l ic)
next
  fix x assume "x \<in> set (delivered s')"
  from dl[OF this] show "fst x < length (objs s')"
  proof
    assume "x \<in> set (delivered s)"
    from wf_deliveredD[OF w this] show ?thesis by (simp add: l)
  qed (simp add: l)
qed

lemma wf_listen_end:
  assumes w: "wf s" and i: "i < length (invs s)"
  shows "wf (listen_end i s)"
proof -
  define c where "c = current (invs s ! i)"
  define f :: "requestObj \<Rightarrow> requestObj"
    where "f = (\<lambda>ob. ob\<lparr>req_state := (if req_state ob = Paused then Flowing else req_state ob),
               end_listeners := end_listeners ob @ [i]\<rparr>)"
  define s' where "s' = listen_end i s"
  have s': "s' = upd_obj c f (upd_inv i (\<lambda>v. v\<lparr>pc := AwaitEnd\<rparr>) s)"
    by (simp add: s'_def listen_end_def c_def f_def)
  have "wf s'"
  proof (rule wf_transfer[OF w])
    show "sorted_wrt (<) (queue s')" using wf_sorted[OF w] by (simp add: s')
    show "set (queue s') \<subseteq> set (queue s)" by (simp add: s')
    show "length (objs s') = length (objs s)" by (simp add: s')
    show "\<And>d. isConnect (objs s' ! d) = isConnect (objs s ! d)"
      by (simp add: s' upd_obj_nth f_def)
    show "\<And>d. req_state (objs s ! d) = Ended \<Longrightarrow> req_state (objs s' ! d) = Ended"
      by (auto simp: s' upd_obj_nth f_def)
    show "length (invs s) \<le> length (invs s')" by (simp add: s')
    show "\<And>j. j < length (invs s) \<Longrightarrow> current (invs s' ! j) = current (invs s ! j)"
      by (simp add: s')
    show "\<And>j. length (invs s) \<le> j \<Longrightarrow> j < length (invs s') \<Longrightarrow> wf_inv s' j"
      by (simp add: s')
    show "\<And>x. x \<in> set (sent s') \<Longrightarrow> x \<in> set (sent s) \<or>
         (snd x < length (objs s) \<and> req_state (objs s' ! snd x) = Ended \<and> \<not> isConnect (objs s ! snd x))"
      by (simp add: s')
    show "\<And>x. x \<in> set (delivered s') \<Longrightarrow> x \<in> set (delivered s) \<or>
         (fst x < length (objs s) \<and> fst x \<notin> set (queue s'))"
      by (simp add: s')
    fix d j assume "d < length (objs s)"
      and "j \<in> set (end_listeners (objs s' ! d)) \<or> j \<in> set (reactions (objs s' ! d))"
    then show "(j \<in> set (end_listeners (objs s ! d)) \<or> j \<in> set (reactions (objs s ! d))) \<or>
         (j < length (invs s') \<and> current (invs s' ! j) = d)"
      using i by (auto simp: s' upd_obj_nth f_def c_def split: if_splits)
  qed
  then show ?thesis by (simp add: s'_def)
qed

lemma wf_send_request:
  assumes w: "wf s" and i: "i < length (invs s)"
    and e: "req_state (objs s ! current (invs s ! i)) = Ended"
  shows "wf (send_request i s)"
proof -
  define c where "c = current (invs s ! i)"
  define f :: "requestObj \<Rightarrow> requestObj" where "f = (\<lambda>ob. ob\<lparr>reactions := reactions ob @ [i]\<rparr>)"
  define s' where "s' = send_request i s"
  have s': "s' = upd_obj c f (upd_inv i (\<lambda>v. v\<lparr>pc := AwaitResp (now s + OFFSHORE_RESPONSE_TIMEOUT_MS)\<rparr>)
           (s\<lparr>sent := sent s @ [(offshoreSocket s, c)]\<rparr>))"
    by (simp add: s'_def send_request_def c_def f_def Let_def)
  from wf_invD[OF w i] have c: "c < length (objs s)" "\<not> isConnect (objs s ! c)"
    by (simp_all add: wf_inv_def c_def)
  have "wf s'"
  proof (rule wf_transfer[OF w])
    show "sorted_wrt (<) (queue s')" using wf_sorted[OF w] by (simp add: s')
    show "set (queue s') \<subseteq> set (queue s)" by (simp add: s')
    show "length (objs s') = length (objs s)" by (simp add: s')
    show "\<And>d. isConnect (objs s' ! d) = isConnect (objs s ! d)"
      by (simp add: s' upd_obj_nth f_def)
    show "\<And>d. req_state (objs s ! d) = Ended \<Longrightarrow> req_state (objs s' ! d) = Ended"
      by (auto simp: s' upd_obj_nth f_def)
    show "length (invs s) \<le> length (invs s')" by (simp add: s')
    show "\<And>j. j < length (invs s) \<Longrightarrow> current (invs s' ! j) = current (invs s ! j)"
      by (simp add: s' upd_inv_nth)
    show "\<And>j. length (invs s) \<le> j \<Longrightarrow> j < length (invs s') \<Longrightarrow> wf_inv s' j"
      by (simp add: s')
    show "\<And>x. x \<in> set (sent s') \<Longrightarrow> x \<in> set (sent s) \<or>
         (snd x < length (objs s) \<and> req_state (objs s' ! snd x) = Ended \<and> \<not> isConnect (objs s ! snd x))"
      using c e by (auto simp: s' upd_obj_nth f_def c_def)
    show "\<And>x. x \<in> set (delivered s') \<Longrightarrow> x \<in> set (delivered s) \<or>
         (fst x < length (objs s) \<and> fst x \<notin> set (queue s'))"
      by (simp add: s')
    fix d j assume "d < length (objs s)"
      and "j \<in> set (end_listeners (objs s' ! d)) \<or> j \<in> set (reactions (objs s' ! d))"
    then show "(j \<in> set (end_listeners (objs s ! d)) \<or> j \<in> set (reactions (objs s ! d))) \<or>
         (j < length (invs s') \<and> current (invs s' ! j) = d)"
      using i by (auto simp: s' upd_obj_nth upd_inv_nth f_def c_def split: if_splits)
  qed
  then show ?thesis by (simp add: s'_def)
qed

lemma wf_write_shift:
  assumes "wf s" "i < length (invs s)"
  shows "wf ((write_res (current (invs s ! i)) a s)\<lparr>queue := tl (queue s), processing := False\<rparr>)"
proof (cases "queue s")
  case Nil
  with assms show ?thesis unfolding wf_defs write_res_def by auto
next
  case (Cons q qs)
  from assms Cons have "current (invs s ! i) \<le> q" "\<forall>x \<in> set qs. q < x"
    unfolding wf_defs by auto
  then have "current (invs s ! i) \<notin> set qs" by auto
  with assms Cons show ?thesis unfolding wf_defs write_res_def by auto
qed

lemma wf_push:
  assumes w: "wf s"
  shows "wf (s\<lparr>objs := objs s @ [\<lparr>isConnect = ic, url = u, host_header = h, req_state = Paused,
                         end_listeners = [], settled = None, reactions = [],
                         cs_out = [], cs_ended = False, cs_closed = False,
                         res_closed = False\<rparr>],
              queue := queue s @ [length (objs s)]\<rparr>)"
    (is "wf ?s'")
proof (rule wfI)
  let ?n = "length (objs s)"
  have nth: "\<And>d. d < ?n \<Longrightarrow> objs ?s' ! d = objs s ! d" by (simp add: nth_append)
  have new: "end_listeners (objs ?s' ! ?n) = []" "reactions (objs ?s' ! ?n) = []" by simp_all
  have qlt: "\<forall>c \<in> set (queue s). c < ?n" using wf_queueD[OF w] by blast
  have dlt: "\<forall>x \<in> set (delivered s). fst x < ?n" using wf_deliveredD[OF w] by blast
  show "sorted_wrt (<) (queue ?s')"
    using wf_sorted[OF w] qlt by (auto simp: sorted_wrt_append)
  show "\<And>c. c \<in> set (queue ?s') \<Longrightarrow> c < length (objs ?s') \<and> \<not> answered ?s' c"
  proof -
    fix c assume "c \<in> set (queue ?s')"
    then consider "c \<in> set (queue s)" | "c = ?n" by auto
    then show "c < length (objs ?s') \<and> \<not> answered ?s' c"
    proof cases
      case 1
      from wf_queueD[OF w 1] show ?thesis by (simp add: answered_def)
    next
      case 2
      with dlt show ?thesis by (auto simp: answered_def)
    qed
  qed
  show "\<And>j. j < length (invs ?s') \<Longrightarrow> wf_inv ?s' j"
  proof -
    fix j assume "j < length (invs ?s')"
    then have j: "j < length (invs s)" by simp
    from wf_invD[OF w j] have a: "current (invs s ! j) < ?n"
      "\<not> isConnect (objs s ! current (invs s ! j))" "\<forall>c \<in> set (queue s). current (invs s ! j) \<le> c"
      by (simp_all add: wf_inv_def)
    with nth[OF a(1)] show "wf_inv ?s' j" by (auto simp: wf_inv_def)
  qed
  show "\<And>x. x \<in> set (sent ?s') \<Longrightarrow>
         snd x < length (objs ?s') \<and> req_state (objs ?s' ! snd x) = Ended \<and> \<not> isConnect (objs ?s' ! snd x)"
  proof -
    fix x assume "x \<in> set (sent ?s')"
    then have "x \<in> set (sent s)" by simp
    from wf_sentD[OF w this] nth[of "snd x"]
    show "snd x < length (objs ?s') \<and> req_state (objs ?s' ! snd x) = Ended \<and> \<not> isConnect (objs ?s' ! snd x)"
      by auto
  qed
  show "\<And>x. x \<in> set (delivered ?s') \<Longrightarrow> fst x < length (objs ?s')"
    using dlt by (auto simp: less_Suc_eq)
  show "\<And>d j. d < length (objs ?s') \<Longrightarrow>
         j \<in> set (end_listeners (objs ?s' ! d)) \<or> j \<in> set (reactions (objs ?s' ! d)) \<Longrightarrow>
         j < length (invs ?s') \<and> current (invs ?s' ! j) = d"
  proof -
    fix d j assume d: "d < length (objs ?s')"
      and j: "j \<in> set (end_listeners (objs ?s' ! d)) \<or> j \<in> set (reactions (objs ?s' ! d))"
    show "j < length (invs ?s') \<and> current (invs ?s' ! j) = d"
    proof (cases "d < ?n")
      case True
      with j nth[OF True] wf_listenersD[OF w True, of j] show ?thesis by simp
    next
      case False
      with d have "d = ?n" by simp
      with j new show ?thesis by simp
    qed
  qed
qed

lemma connectToOffshore_fields [simp]:
  "queue (connectToOffshore s) = queue s" "objs (connectToOffshore s) = objs s"
  "invs (connectToOffshore s) = invs s" "delivered (connectToOffshore s) = delivered s"
  "sent (connectToOffshore s) = sent s" "processing (connectToOffshore s) = processing s"
  "tunnels (connectToOffshore s) = tunnels s" "now (connectToOffshore s) = now s"
  "received (connectToOffshore s) = received s" "exited (connectToOffshore s) = exited s"
  by (simp_all add: connectToOffshore_def)

lemma sock_unavailable_processing [simp]:
  "sock_unavailable (s\<lparr>processing := b\<rparr>) = sock_unavailable s"
  by (simp add: sock_unavailable_def split: option.splits)

lemma write_res_fields [simp]:
  "queue (write_res c a s) = queue s" "objs (write_res c a s) = objs s"
  "invs (write_res c a s) = invs s" "sent (write_res c a s) = sent s"
  "processing (write_res c a s) = processing s" "tunnels (write_res c a s) = tunnels s"
  "socks (write_res c a s) = socks s" "offshoreSocket (write_res c a s) = offshoreSocket s"
  "now (write_res c a s) = now s" "received (write_res c a s) = received s"
  by (simp_all add: write_res_def)

lemma cs_fields [simp]:
  "queue (cs_end c xs s) = queue s" "invs (cs_end c xs s) = invs s"
  "delivered (cs_end c xs s) = delivered s" "sent (cs_end c xs s) = sent s"
  "length (objs (cs_end c xs s)) = length (objs s)" "processing (cs_end c xs s) = processing s"
  "tunnels (cs_end c xs s) = tunnels s" "received (cs_end c xs s) = received s"
  "queue (cs_write c x s) = queue s" "invs (cs_write c x s) = invs s"
  "delivered (cs_write c x s) = delivered s" "sent (cs_write c x s) = sent s"
  "length (objs (cs_write c x s)) = length (objs s)" "processing (cs_write c x s) = processing s"
  "tunnels (cs_write c x s) = tunnels s" "received (cs_write c x s) = received s"
  by (simp_all add: cs_end_def cs_write_def)

lemma wf_cs [simp]: "wf (cs_end c xs s) = wf s" "wf (cs_write c x s) = wf s"
  by (simp_all add: cs_end_def cs_write_def wf_upd_obj keeps_core_def)

text \<open>
  A rule for properties that every branch of \<open>processingLoop\<close> keeps.
\<close>

lemma processingLoop_rule [consumes 1, case_names wait listen badport tunnel]:
  assumes P: "P s"
    and wait: "\<And>s. P s \<Longrightarrow> \<not> processing s \<Longrightarrow> queue s \<noteq> [] \<Longrightarrow>
        \<not> isConnect (objs s ! hd (queue s)) \<Longrightarrow> sock_unavailable s \<Longrightarrow>
        P ((connectToOffshore (s\<lparr>processing := True\<rparr>))
             \<lparr>invs := invs s @ [\<lparr>current = hd (queue s), pc = Wait200 (now s + 200)\<rparr>]\<rparr>)"
    and listen: "\<And>s. P s \<Longrightarrow> \<not> processing s \<Longrightarrow> queue s \<noteq> [] \<Longrightarrow>
        \<not> isConnect (objs s ! hd (queue s)) \<Longrightarrow> \<not> sock_unavailable s \<Longrightarrow>
        P (listen_end (length (invs s))
             (s\<lparr>processing := True, invs := invs s @ [\<lparr>current = hd (queue s), pc = AwaitEnd\<rparr>]\<rparr>))"
    and badport: "\<And>s. P s \<Longrightarrow> \<not> processing s \<Longrightarrow> queue s \<noteq> [] \<Longrightarrow>
        isConnect (objs s ! hd (queue s)) \<Longrightarrow>
        P ((cs_end (hd (queue s)) [] (s\<lparr>processing := True\<rparr>))
             \<lparr>queue := tl (queue s), processing := False\<rparr>)"
    and tunnel: "\<And>s h p. P s \<Longrightarrow> \<not> processing s \<Longrightarrow> queue s \<noteq> [] \<Longrightarrow>
        isConnect (objs s ! hd (queue s)) \<Longrightarrow>
        P (s\<lparr>processing := True,
              tunnels := tunnels s @
                [\<lparr>t_current = hd (queue s), t_host = h, t_port = p, remote = Connecting,
                  remote_destroyed = False, piped = False, to_remote = []\<rparr>]\<rparr>)"
  shows "P (processingLoop s)"
  using P
proof (induction s rule: processingLoop.induct)
  case (1 s)
  show ?case
  proof (cases "processing s \<or> queue s = []")
    case True
    with "1.prems" show ?thesis by (subst processingLoop.simps) simp
  next
    case False
    then have np: "\<not> processing s" and ne: "queue s \<noteq> []" by simp_all
    show ?thesis
    proof (cases "isConnect (objs s ! hd (queue s))")
      case nc: False
      show ?thesis
      proof (cases "sock_unavailable s")
        case True
        then have u: "sock_unavailable (s\<lparr>processing := True\<rparr>)"
          by simp
        from wait[OF "1.prems" np ne nc True] False nc u show ?thesis
          by (subst processingLoop.simps) (simp add: Let_def)
      next
        case f: False
        then have u: "\<not> sock_unavailable (s\<lparr>processing := True\<rparr>)"
          by simp
        from listen[OF "1.prems" np ne nc f] False nc u show ?thesis
          by (subst processingLoop.simps) (simp add: Let_def)
      qed
    next
      case c: True
      obtain h p where hp: "connect_target (url (objs s ! hd (queue s)))
          (host_header (objs s ! hd (queue s))) = (h, p)"
        by (cases "connect_target (url (objs s ! hd (queue s))) (host_header (objs s ! hd (queue s)))")
      show ?thesis
      proof (cases "valid_port p")
        case None
        have "P (processingLoop ((cs_end (hd (queue s)) [] (s\<lparr>processing := True\<rparr>))
             \<lparr>queue := tl (queue s), processing := False\<rparr>))"
          by (rule "1.IH"[OF False refl refl _ hp[symmetric] None]) (use c badport[OF "1.prems" np ne c] in simp_all)
        with False c hp None show ?thesis
          by (subst processingLoop.simps) (simp add: Let_def)
      next
        case (Some pn)
        from tunnel[OF "1.prems" np ne c, of h pn] False c hp Some show ?thesis
          by (subst processingLoop.simps) (simp add: Let_def)
      qed
    qed
  qed
qed

lemma wf_processingLoop: "wf s \<Longrightarrow> wf (processingLoop s)"
proof (induction rule: processingLoop_rule)
  case (wait s)
  have "wf (connectToOffshore (s\<lparr>processing := True\<rparr>))"
    using wait(1) by (subst wf_core_eq[of _ s]) simp_all
  from wf_spawn[OF this, of "Wait200 (now s + 200)"] wait(3,4) show ?case
    by simp
next
  case (listen s)
  have "wf (s\<lparr>processing := True\<rparr>)"
    using listen(1) by (subst wf_core_eq[of _ s]) simp_all
  from wf_spawn[OF this, of AwaitEnd] listen(3,4)
  have "wf (s\<lparr>processing := True, invs := invs s @ [\<lparr>current = hd (queue s), pc = AwaitEnd\<rparr>]\<rparr>)"
    by simp
  then show ?case by (rule wf_listen_end) simp
next
  case (badport s)
  have "wf (s\<lparr>processing := True\<rparr>)"
    using badport(1) by (subst wf_core_eq[of _ s]) simp_all
  then have "wf (cs_end (hd (queue s)) [] (s\<lparr>processing := True\<rparr>))"
    by simp
  from wf_shift[OF this, of False] show ?case by simp
next
  case (tunnel s h p)
  then show ?case by (subst wf_core_eq[of _ s]) simp_all
qed

lemma wf_finish: "wf s \<Longrightarrow> wf (finish s)"
  unfolding finish_def by (intro wf_processingLoop wf_shift)

lemma wf_after_response:
  assumes "wf s" "i < length (invs s)"
  shows "wf (after_response i r s)"
proof -
  let ?s1 = "upd_inv i (\<lambda>v. v\<lparr>pc := Finished\<rparr>) s"
  have "wf ?s1" "i < length (invs ?s1)" using assms by (simp_all add: wf_upd_inv_pc)
  from wf_write_shift[OF this] have "wf (finish (write_res (current (invs s ! i))
      (case r of None \<Rightarrow> GatewayTimeout504 | Some p \<Rightarrow> Relayed p) ?s1))"
    unfolding finish_def by (intro wf_processingLoop) simp
  then show ?thesis by (simp add: after_response_def Let_def)
qed

lemma fold_preserves:
  assumes "\<And>y t. y \<in> set ys \<Longrightarrow> P t \<Longrightarrow> P (g y t)" and "P t0"
  shows "P (fold g ys t0)"
  using assms by (induction ys arbitrary: t0) simp_all

lemma listen_end_invs_length [simp]: "length (invs (listen_end i s)) = length (invs s)"
  by (simp add: listen_end_def)

lemma processingLoop_invs_mono: "n \<le> length (invs s) \<Longrightarrow> n \<le> length (invs (processingLoop s))"
  by (induction rule: processingLoop_rule) simp_all

lemma finish_invs_mono: "n \<le> length (invs s) \<Longrightarrow> n \<le> length (invs (finish s))"
  unfolding finish_def by (rule processingLoop_invs_mono) simp

lemma after_response_invs_mono:
  "n \<le> length (invs s) \<Longrightarrow> n \<le> length (invs (after_response i r s))"
  unfolding after_response_def Let_def by (rule finish_invs_mono) simp

lemma wf_upd_tunnel [simp]: "wf (upd_tunnel t f s) = wf s"
  by (rule wf_core_eq) (simp_all add: upd_tunnel_def)

lemma wf_upd_sock [simp]: "wf (upd_sock k f s) = wf s"
  by (rule wf_core_eq) (simp_all add: upd_sock_def)

lemma wf_drain:
  assumes w: "wf s" and c: "c < length (objs s)"
  shows "wf (drain c s)"
proof (cases "settled (objs s ! c)")
  case None
  with w show ?thesis by (simp add: drain_def)
next
  case (Some p)
  let ?P = "\<lambda>s'. wf s' \<and> length (invs s) \<le> length (invs s')"
  have "?P (fold (\<lambda>i s'. if awaiting_response s' i then after_response i (Some p) s' else s')
               (reactions (objs s ! c)) s)"
  proof (rule fold_preserves)
    show "?P s" using w by simp
    fix i s' assume i: "i \<in> set (reactions (objs s ! c))" and p: "?P s'"
    from wf_listenersD[OF w c] i have "i < length (invs s)" by blast
    with p have "i < length (invs s')" by simp
    with p show "?P (if awaiting_response s' i then after_response i (Some p) s' else s')"
      by (simp add: wf_after_response after_response_invs_mono)
  qed
  with Some show ?thesis by (simp add: drain_def)
qed

lemma wf_on_message [simp]: "wf (on_message m s) = wf s"
proof -
  have r: "\<And>p s. wf (s\<lparr>received := received s @ [p]\<rparr>) = wf s"
    by (rule wf_core_eq) simp_all
  show ?thesis
    by (cases m) (simp add: on_message_def Let_def wf_upd_obj keeps_core_def r)
qed

lemma wf_enqueueRequest: "wf s \<Longrightarrow> wf (enqueueRequest ic u h s)"
  unfolding enqueueRequest_def Let_def
  by (auto intro!: wf_processingLoop wf_push)

lemma send_request_fields [simp]:
  "length (invs (send_request i s)) = length (invs s)"
  "current (invs (send_request i s) ! j) = current (invs s ! j)"
  "req_state (objs (send_request i s) ! d) = req_state (objs s ! d)"
  "length (objs (send_request i s)) = length (objs s)"
  "queue (send_request i s) = queue s" "delivered (send_request i s) = delivered s"
  by (simp_all add: send_request_def Let_def upd_obj_nth upd_inv_nth)

lemma wf_on_req_end:
  assumes w: "wf s" and c: "c < length (objs s)"
  shows "wf (on_req_end c s)"
proof -
  define s1 where "s1 = upd_obj c (\<lambda>ob. ob\<lparr>req_state := Ended\<rparr>) s"
  have w1: "wf s1"
  proof (rule wf_transfer[OF w])
    show "sorted_wrt (<) (queue s1)" using wf_sorted[OF w] by (simp add: s1_def)
    fix d j assume "d < length (objs s)"
      and "j \<in> set (end_listeners (objs s1 ! d)) \<or> j \<in> set (reactions (objs s1 ! d))"
    then show "(j \<in> set (end_listeners (objs s ! d)) \<or> j \<in> set (reactions (objs s ! d))) \<or>
         (j < length (invs s1) \<and> current (invs s1 ! j) = d)"
      by (auto simp: s1_def upd_obj_nth split: if_splits)
  qed (auto simp: s1_def upd_obj_nth)
  have e1: "req_state (objs s1 ! c) = Ended" using c by (simp add: s1_def upd_obj_nth)
  have l1: "end_listeners (objs s ! c) = end_listeners (objs s1 ! c)"
    by (simp add: s1_def upd_obj_nth)
  let ?P = "\<lambda>s'. wf s' \<and> length (invs s') = length (invs s1) \<and>
      (\<forall>j. current (invs s' ! j) = current (invs s1 ! j)) \<and>
      req_state (objs s' ! c) = Ended \<and> length (objs s') = length (objs s1)"
  have "?P (fold send_request (end_listeners (objs s1 ! c)) s1)"
  proof (rule fold_preserves)
    show "?P s1" using w1 e1 by simp
    fix i s' assume i: "i \<in> set (end_listeners (objs s1 ! c))" and p: "?P s'"
    from c have c1: "c < length (objs s1)" by (simp add: s1_def)
    from wf_listenersD[OF w1 c1] i have "i < length (invs s1)" "current (invs s1 ! i) = c"
      by blast+
    with p have "i < length (invs s')" "req_state (objs s' ! current (invs s' ! i)) = Ended"
      by simp_all
    with p show "?P (send_request i s')" by (simp add: wf_send_request)
  qed
  then have "wf (drain c (fold send_request (end_listeners (objs s1 ! c)) s1))"
    using c by (intro wf_drain) (simp_all add: s1_def)
  then show ?thesis by (simp add: on_req_end_def s1_def[symmetric] l1)
qed

lemma fold_on_message_fields [simp]:
  "queue (fold on_message ms s) = queue s"
  "length (objs (fold on_message ms s)) = length (objs s)"
  by (induction ms arbitrary: s) (auto simp: on_message_def Let_def split: prod.splits)

lemma wf_fold_on_message [simp]: "wf (fold on_message ms s) = wf s"
  by (induction ms arbitrary: s) simp_all

lemma wf_on_sock_data: "wf s \<Longrightarrow> wf (on_sock_data k chunk s)"
proof -
  assume w: "wf s"
  let ?s2 = "fold on_message (fst (on_data (rbuf (socks s ! k)) chunk))
      (upd_sock k (\<lambda>x. x\<lparr>rbuf := snd (on_data (rbuf (socks s ! k)) chunk)\<rparr>) s)"
  have w2: "wf ?s2" using w by simp
  show ?thesis
  proof (cases "queue ?s2 = []")
    case True
    with w2 show ?thesis by (simp add: on_sock_data_def Let_def)
  next
    case False
    then have "hd (queue ?s2) \<in> set (queue ?s2)" by simp
    from wf_queueD[OF w2 this] have "wf (drain (hd (queue ?s2)) ?s2)"
      by (intro wf_drain[OF w2]) simp
    with False show ?thesis by (simp add: on_sock_data_def Let_def)
  qed
qed

lemma wf_on_wake: "wf s \<Longrightarrow> i < length (invs s) \<Longrightarrow> wf (on_wake i s)"
proof -
  assume w: "wf s" and i: "i < length (invs s)"
  let ?s1 = "upd_inv i (\<lambda>v. v\<lparr>pc := Finished\<rparr>) s"
  have "wf ?s1" "i < length (invs ?s1)" using w i by (simp_all add: wf_upd_inv_pc)
  from wf_write_shift[OF this, of Unavailable502]
  have "wf (finish (write_res (current (invs s ! i)) Unavailable502 ?s1))"
    unfolding finish_def by (intro wf_processingLoop) simp
  with w i show ?thesis by (simp add: on_wake_def wf_listen_end)
qed

lemma wf_on_client_close: "wf s \<Longrightarrow> wf (on_client_close c s)"
  unfolding on_client_close_def
  by (rule fold_preserves) (simp_all add: wf_upd_obj keeps_core_def wf_finish)

lemma wf_on_client_data: "wf s \<Longrightarrow> wf (on_client_data c bs s)"
  unfolding on_client_data_def by (rule fold_preserves) simp_all

lemma wf_on_client_error: "wf s \<Longrightarrow> wf (on_client_error c s)"
  unfolding on_client_error_def by (rule fold_preserves) simp_all

lemma wf_irrelevant [simp]:
  "wf (s\<lparr>now := a\<rparr>) = wf s" "wf (s\<lparr>processing := b\<rparr>) = wf s"
  "wf (s\<lparr>reconnectTimer := r\<rparr>) = wf s" "wf (s\<lparr>timerArmed := ta\<rparr>) = wf s"
  "wf (s\<lparr>socks := ks\<rparr>) = wf s" "wf (s\<lparr>offshoreSocket := os\<rparr>) = wf s"
  "wf (s\<lparr>tunnels := ts\<rparr>) = wf s" "wf (s\<lparr>received := rc\<rparr>) = wf s"
  "wf (s\<lparr>exited := cr\<rparr>) = wf s"
  by (rule wf_core_eq, simp, simp, simp, simp, simp)+

lemma wf_connectToOffshore [simp]: "wf (connectToOffshore s) = wf s"
  by (rule wf_core_eq) simp_all

lemma wf_schedule_reconnect [simp]: "wf (schedule_reconnect s) = wf s"
  by (simp add: schedule_reconnect_def)

lemma wf_step:
  assumes w: "wf s" and st: "step ev s = Some s'"
  shows "wf s'"
proof (cases ev)
  case (Tick d)
  with st w show ?thesis by (auto simp: step_def split: if_splits)
next
  case (Enqueue ic u h)
  with st w show ?thesis by (auto simp: step_def wf_enqueueRequest split: if_splits)
next
  case (ResClose c)
  with st w show ?thesis
    by (auto simp: step_def wf_upd_obj keeps_core_def split: if_splits)
next
  case (ReqEnd c)
  with st w show ?thesis by (auto simp: step_def wf_on_req_end split: if_splits)
next
  case (SockConnect k)
  with st w show ?thesis
    by (auto simp: step_def on_connect_def Let_def intro!: wf_processingLoop split: if_splits)
next
  case (SockError k)
  with st w show ?thesis
    by (auto simp: step_def on_error_def Let_def split: if_splits option.splits)
next
  case (SockClose k)
  with st w show ?thesis
    by (auto simp: step_def on_close_def split: if_splits)
next
  case (SockData k chunk)
  with st w show ?thesis by (auto simp: step_def wf_on_sock_data split: if_splits)
next
  case ReconnectFire
  with st w show ?thesis by (auto simp: step_def split: if_splits)
next
  case (Wake i)
  with st w show ?thesis by (auto simp: step_def wake_due_def wf_on_wake split: if_splits)
next
  case (Timeout i)
  with st w show ?thesis
    by (auto simp: step_def timeout_due_def wf_after_response split: if_splits)
next
  case (RemoteConnect t)
  with st w show ?thesis by (auto simp: step_def on_remote_connect_def split: if_splits)
next
  case (RemoteError t)
  with st w show ?thesis by (auto simp: step_def on_remote_error_def split: if_splits)
next
  case (RemoteClose t)
  with st w show ?thesis
    by (auto simp: step_def on_remote_close_def intro!: wf_finish split: if_splits)
next
  case (RemoteData t bs)
  with st w show ?thesis by (auto simp: step_def on_remote_data_def split: if_splits)
next
  case (ClientData c bs)
  with st w show ?thesis by (auto simp: step_def wf_on_client_data split: if_splits)
next
  case (ClientSockError c)
  with st w show ?thesis by (auto simp: step_def wf_on_client_error split: if_splits)
next
  case (ClientSockClose c)
  with st w show ?thesis by (auto simp: step_def wf_on_client_close split: if_splits)
qed

lemma wf_run: "wf s \<Longrightarrow> run tr s = Some s' \<Longrightarrow> wf s'"
  by (induction tr arbitrary: s) (auto split: option.splits dest: wf_step)

lemma wf_reachable: "run tr init = Some s \<Longrightarrow> wf s"
  by (rule wf_run[OF wf_init])

section \<open>What a step adds to the log of sent frames\<close>

lemma listen_end_fields [simp]:
  "sent (listen_end i s) = sent s" "delivered (listen_end i s) = delivered s"
  "queue (listen_end i s) = queue s" "tunnels (listen_end i s) = tunnels s"
  "processing (listen_end i s) = processing s" "length (objs (listen_end i s)) = length (objs s)"
  by (simp_all add: listen_end_def)

lemma processingLoop_sent [simp]: "sent (processingLoop s) = sent s"
proof -
  have "sent s = sent s \<Longrightarrow> sent (processingLoop s) = sent s"
    by (induction rule: processingLoop_rule[where P = "\<lambda>s'. sent s' = sent s"]) simp_all
  then show ?thesis by simp
qed

lemma finish_sent [simp]: "sent (finish s) = sent s"
  by (simp add: finish_def)

lemma after_response_sent [simp]: "sent (after_response i r s) = sent s"
  by (simp add: after_response_def Let_def)

lemma drain_sent [simp]: "sent (drain c s) = sent s"
proof (cases "settled (objs s ! c)")
  case None
  then show ?thesis by (simp add: drain_def)
next
  case (Some p)
  have "sent (fold (\<lambda>i s'. if awaiting_response s' i then after_response i (Some p) s' else s')
               (reactions (objs s ! c)) s) = sent s"
    by (rule fold_preserves[where P = "\<lambda>s'. sent s' = sent s"]) simp_all
  with Some show ?thesis by (simp add: drain_def)
qed

lemma on_message_sent [simp]: "sent (on_message m s) = sent s"
  by (cases m) (simp add: on_message_def Let_def)

lemma fold_on_message_sent [simp]: "sent (fold on_message ms s) = sent s"
  by (induction ms arbitrary: s) simp_all

lemma upd_sent [simp]:
  "sent (upd_tunnel t f s) = sent s" "sent (upd_sock k g s) = sent s"
  "sent (schedule_reconnect s) = sent s"
  by (simp_all add: upd_tunnel_def upd_sock_def schedule_reconnect_def)

lemma send_request_more [simp]:
  "offshoreSocket (send_request i s) = offshoreSocket s"
  "sent (send_request i s) = sent s @ [(offshoreSocket s, current (invs s ! i))]"
  by (simp_all add: send_request_def Let_def)

lemma fold_send_request_sent:
  "sent (fold send_request is s) = sent s @ map (\<lambda>i. (offshoreSocket s, current (invs s ! i))) is"
  by (induction "is" arbitrary: s) simp_all

lemma on_req_end_sent:
  "sent (on_req_end c s) =
     sent s @ map (\<lambda>i. (offshoreSocket s, current (invs s ! i))) (end_listeners (objs s ! c))"
  by (simp add: on_req_end_def fold_send_request_sent)

lemma on_client_sent [simp]:
  "sent (on_client_close c s) = sent s" "sent (on_client_data c bs s) = sent s"
  "sent (on_client_error c s) = sent s"
proof -
  show "sent (on_client_close c s) = sent s"
    unfolding on_client_close_def
    by (rule fold_preserves[where P = "\<lambda>s'. sent s' = sent s"]) simp_all
  show "sent (on_client_data c bs s) = sent s"
    unfolding on_client_data_def
    by (rule fold_preserves[where P = "\<lambda>s'. sent s' = sent s"]) simp_all
  show "sent (on_client_error c s) = sent s"
    unfolding on_client_error_def
    by (rule fold_preserves[where P = "\<lambda>s'. sent s' = sent s"]) simp_all
qed

text \<open>Only the end of a request body makes the agent write frames, and only for that request.\<close>

lemma step_sent:
  assumes w: "wf s" and st: "step ev s = Some s'"
  shows "\<exists>new. sent s' = sent s @ new \<and>
           (\<forall>x \<in> set new. snd x < length (objs s) \<and> req_state (objs s ! snd x) = Flowing)"
proof (cases ev)
  case (ReqEnd c)
  with st have c: "c < length (objs s)" "req_state (objs s ! c) = Flowing"
    and s': "s' = on_req_end c s"
    by (auto simp: step_def split: if_splits)
  have "\<forall>i \<in> set (end_listeners (objs s ! c)). current (invs s ! i) = c"
    using wf_listenersD[OF w c(1)] by blast
  with c show ?thesis by (auto simp: s' on_req_end_sent)
next
  case (Tick d)
  with st show ?thesis by (auto simp: step_def split: if_splits)
next
  case (Enqueue ic u h)
  with st show ?thesis by (auto simp: step_def enqueueRequest_def Let_def split: if_splits)
next
  case (ResClose c)
  with st show ?thesis by (auto simp: step_def split: if_splits)
next
  case (SockConnect k)
  with st show ?thesis by (auto simp: step_def on_connect_def Let_def split: if_splits)
next
  case (SockError k)
  with st show ?thesis
    by (auto simp: step_def on_error_def Let_def split: if_splits option.splits)
next
  case (SockClose k)
  with st show ?thesis by (auto simp: step_def on_close_def split: if_splits)
next
  case (SockData k chunk)
  with st show ?thesis by (auto simp: step_def on_sock_data_def Let_def split: if_splits)
next
  case ReconnectFire
  with st show ?thesis by (auto simp: step_def split: if_splits)
next
  case (Wake i)
  with st show ?thesis by (auto simp: step_def on_wake_def split: if_splits)
next
  case (Timeout i)
  with st show ?thesis by (auto simp: step_def split: if_splits)
next
  case (RemoteConnect t)
  with st show ?thesis by (auto simp: step_def on_remote_connect_def split: if_splits)
next
  case (RemoteError t)
  with st show ?thesis by (auto simp: step_def on_remote_error_def split: if_splits)
next
  case (RemoteClose t)
  with st show ?thesis by (auto simp: step_def on_remote_close_def split: if_splits)
next
  case (RemoteData t bs)
  with st show ?thesis by (auto simp: step_def on_remote_data_def split: if_splits)
next
  case (ClientData c bs)
  with st show ?thesis by (auto simp: step_def split: if_splits)
next
  case (ClientSockError c)
  with st show ?thesis by (auto simp: step_def split: if_splits)
next
  case (ClientSockClose c)
  with st show ?thesis by (auto simp: step_def split: if_splits)
qed

lemma step_keeps_frames_of_sent:
  assumes w: "wf s" and st: "step ev s = Some s'" and c: "(k, c) \<in> set (sent s)"
  shows "filter (\<lambda>x. snd x = c) (sent s') = filter (\<lambda>x. snd x = c) (sent s) \<and> (k, c) \<in> set (sent s')"
proof -
  from step_sent[OF w st] obtain new where n: "sent s' = sent s @ new"
    "\<forall>x \<in> set new. req_state (objs s ! snd x) = Flowing" by blast
  from wf_sentD[OF w c] have "req_state (objs s ! c) = Ended" by simp
  with n(2) have "\<forall>x \<in> set new. snd x \<noteq> c" by auto
  then have "filter (\<lambda>x. snd x = c) new = []" by (simp add: filter_empty_conv)
  with n(1) c show ?thesis by simp
qed

lemma run_keeps_frames_of_sent:
  assumes "wf s" "run tr s = Some s'" "(k, c) \<in> set (sent s)"
  shows "filter (\<lambda>x. snd x = c) (sent s') = filter (\<lambda>x. snd x = c) (sent s)"
  using assms
proof (induction tr arbitrary: s)
  case Nil
  then show ?case by simp
next
  case (Cons ev tr)
  from Cons.prems(2) obtain s1 where s1: "step ev s = Some s1" "run tr s1 = Some s'"
    by (auto split: option.splits)
  from step_keeps_frames_of_sent[OF Cons.prems(1) s1(1) Cons.prems(3)]
    Cons.IH[OF wf_step[OF Cons.prems(1) s1(1)] s1(2)]
  show ?case by simp
qed

section \<open>Runs of the local agent\<close>

lemmas client_defs =
  step_def init_def connectToOffshore_def sock_unavailable_def schedule_reconnect_def
  RECONNECT_MS_def OFFSHORE_RESPONSE_TIMEOUT_MS_def
  upd_sock_def upd_obj_def upd_inv_def upd_tunnel_def
  processingLoop.simps finish_def enqueueRequest_def listen_end_def write_res_def answered_def
  after_response_def awaiting_response_def drain_def send_request_def on_message_def
  on_req_end_def on_connect_def on_error_def on_close_def on_sock_data_def on_wake_def
  on_remote_connect_def on_remote_error_def on_remote_close_def on_remote_data_def
  on_client_data_def on_client_error_def on_client_close_def tunnel_flows_def
  wake_due_def timeout_due_def reconnect_due_def connect_request_def
  cs_write_def cs_end_def connect_target_def valid_port_def parseInt10_def digits_value_def
  is_space_def
  is_digit_def
  on_data_def Let_def

lemma run_append:
  "run (a @ b) s = (case run a s of None \<Rightarrow> None | Some s' \<Rightarrow> run b s')"
  by (induction a arbitrary: s) (auto split: option.splits)

section \<open>Answers and received payloads\<close>

subsection \<open>What a resumed call delivers\<close>

lemma processingLoop_delivered [simp]: "delivered (processingLoop s) = delivered s"
proof -
  have "delivered s = delivered s \<Longrightarrow> delivered (processingLoop s) = delivered s"
    by (induction rule: processingLoop_rule[where P = "\<lambda>s'. delivered s' = delivered s"]) simp_all
  then show ?thesis by simp
qed

lemma finish_delivered [simp]: "delivered (finish s) = delivered s"
  by (simp add: finish_def)

lemma processingLoop_old_invs_aux:
  assumes "n \<le> length (invs s) \<and> invs s ! j = x" and j: "j < n"
  shows "n \<le> length (invs (processingLoop s)) \<and> invs (processingLoop s) ! j = x"
  using assms(1)
proof (induction rule: processingLoop_rule)
  case (wait s)
  with j show ?case by (simp add: nth_append)
next
  case (listen s)
  with j show ?case by (simp add: nth_append listen_end_def upd_inv_def upd_obj_def)
next
  case (badport s)
  then show ?case by (simp add: cs_end_def upd_obj_def)
next
  case (tunnel s h p)
  then show ?case by simp
qed

lemma processingLoop_old_invs:
  "n \<le> length (invs s) \<Longrightarrow> j < n \<Longrightarrow> invs (processingLoop s) ! j = invs s ! j"
  using processingLoop_old_invs_aux[of n s j "invs s ! j"] by simp

lemma after_response_old_invs:
  assumes "j < length (invs s)" "j \<noteq> i"
  shows "invs (after_response i r s) ! j = invs s ! j"
proof -
  let ?s1 = "write_res (current (invs s ! i))
     (case r of None \<Rightarrow> GatewayTimeout504 | Some p \<Rightarrow> Relayed p) (upd_inv i (\<lambda>v. v\<lparr>pc := Finished\<rparr>) s)"
  have "invs (processingLoop (?s1\<lparr>queue := tl (queue ?s1), processing := False\<rparr>)) ! j =
      invs (?s1\<lparr>queue := tl (queue ?s1), processing := False\<rparr>) ! j"
    by (rule processingLoop_old_invs[where n = "length (invs s)"]) (use assms in simp_all)
  with assms show ?thesis
    by (simp add: after_response_def Let_def finish_def upd_inv_def)
qed

lemma after_response_current:
  assumes "j < length (invs s)"
  shows "current (invs (after_response i r s) ! j) = current (invs s ! j)"
proof -
  let ?s1 = "write_res (current (invs s ! i))
     (case r of None \<Rightarrow> GatewayTimeout504 | Some p \<Rightarrow> Relayed p) (upd_inv i (\<lambda>v. v\<lparr>pc := Finished\<rparr>) s)"
  have "invs (processingLoop (?s1\<lparr>queue := tl (queue ?s1), processing := False\<rparr>)) ! j =
      invs (?s1\<lparr>queue := tl (queue ?s1), processing := False\<rparr>) ! j"
    by (rule processingLoop_old_invs[where n = "length (invs s)"]) (use assms in simp_all)
  with assms show ?thesis
    by (cases "j = i") (simp_all add: after_response_def Let_def finish_def upd_inv_def)
qed

lemma after_response_delivered:
  "delivered (after_response i r s) =
     (if isConnect (objs s ! current (invs s ! i)) \<or> answered s (current (invs s ! i)) then delivered s
      else delivered s @ [(current (invs s ! i), case r of None \<Rightarrow> GatewayTimeout504 | Some p \<Rightarrow> Relayed p)])"
  by (simp add: after_response_def Let_def write_res_def answered_def)

text \<open>Once the request is answered, the remaining reactions deliver nothing.\<close>

lemma resume_answered:
  assumes "\<forall>r \<in> set rs. r < length (invs s) \<and> current (invs s ! r) = c" "answered s c"
  shows "delivered (fold (\<lambda>i s'. if awaiting_response s' i then after_response i (Some p) s' else s') rs s)
         = delivered s"
  using assms
proof (induction rs arbitrary: s)
  case Nil
  then show ?case by simp
next
  case (Cons r rs)
  let ?s' = "if awaiting_response s r then after_response r (Some p) s else s"
  from Cons.prems have d: "delivered ?s' = delivered s"
    by (simp add: after_response_delivered)
  then have a: "answered ?s' c" using Cons.prems(2) by (simp add: answered_def)
  have l: "length (invs s) \<le> length (invs ?s')"
    by (simp add: after_response_invs_mono)
  have "\<forall>x \<in> set rs. x < length (invs ?s') \<and> current (invs ?s' ! x) = c"
  proof
    fix x assume "x \<in> set rs"
    with Cons.prems(1) have x: "x < length (invs s)" "current (invs s ! x) = c" by simp_all
    with l show "x < length (invs ?s') \<and> current (invs ?s' ! x) = c"
      by (simp add: after_response_current)
  qed
  from Cons.IH[OF this a] d show ?case by simp
qed

lemma resume_first:
  assumes "wf s" "\<forall>r \<in> set rs. r < length (invs s) \<and> current (invs s ! r) = c"
    "\<not> answered s c" "i \<in> set rs" "awaiting_response s i"
  shows "delivered (fold (\<lambda>i s'. if awaiting_response s' i then after_response i (Some p) s' else s') rs s)
         = delivered s @ [(c, Relayed p)]"
  using assms
proof (induction rs arbitrary: s)
  case Nil
  then show ?case by simp
next
  case (Cons r rs)
  from Cons.prems(2) have r: "r < length (invs s)" "current (invs s ! r) = c" by simp_all
  from wf_invD[OF Cons.prems(1) r(1)] r(2) have nc: "\<not> isConnect (objs s ! c)"
    by (simp add: wf_inv_def)
  show ?case
  proof (cases "awaiting_response s r")
    case True
    let ?s' = "after_response r (Some p) s"
    from r nc Cons.prems(3) have d: "delivered ?s' = delivered s @ [(c, Relayed p)]"
      by (simp add: after_response_delivered)
    then have a: "answered ?s' c" by (simp add: answered_def)
    have l: "length (invs s) \<le> length (invs ?s')"
      by (simp add: after_response_invs_mono)
    have "\<forall>x \<in> set rs. x < length (invs ?s') \<and> current (invs ?s' ! x) = c"
    proof
      fix x assume "x \<in> set rs"
      with Cons.prems(2) have x: "x < length (invs s)" "current (invs s ! x) = c" by simp_all
      with l show "x < length (invs ?s') \<and> current (invs ?s' ! x) = c"
        by (simp add: after_response_current)
    qed
    from resume_answered[OF this a, of p] d True show ?thesis by simp
  next
    case False
    with Cons.prems(4,5) have "i \<in> set rs" by auto
    from Cons.IH[OF Cons.prems(1) _ Cons.prems(3) this Cons.prems(5)] Cons.prems(2) False
    show ?thesis by simp
  qed
qed

lemma drain_delivers:
  assumes "wf s" "c < length (objs s)" "\<not> answered s c" "settled (objs s ! c) = Some p"
    "i \<in> set (reactions (objs s ! c))" "awaiting_response s i"
  shows "delivered (drain c s) = delivered s @ [(c, Relayed p)]"
proof -
  from wf_listenersD[OF assms(1,2)]
  have "\<forall>r \<in> set (reactions (objs s ! c)). r < length (invs s) \<and> current (invs s ! r) = c"
    by blast
  from resume_first[OF assms(1) this assms(3,5,6)] assms(4) show ?thesis
    by (simp add: drain_def)
qed

text \<open>A socket with an empty reader buffer receives one type-1 frame, whole.\<close>

lemma on_sock_data_frame:
  assumes w: "wf s" and f: "sendMessage 1 p = Inr f" and b: "rbuf (socks s ! k) = []"
    and q: "queue s \<noteq> []" and u: "settled (objs s ! hd (queue s)) = None"
    and i: "i \<in> set (reactions (objs s ! hd (queue s)))" "awaiting_response s i"
  shows "delivered (on_sock_data k f s) = delivered s @ [(hd (queue s), Relayed p)]"
proof -
  let ?c = "hd (queue s)"
  have "reader_loop [] = ([], [])" by (rule reader_loop_short) simp
  with reader_loop_frame[OF f, of "[]"] have od: "on_data [] f = ([(1, p)], [])"
    by (simp add: on_data_def)
  let ?s1 = "upd_sock k (\<lambda>x. x\<lparr>rbuf := []\<rparr>) s"
  let ?s2 = "upd_obj ?c (\<lambda>ob. ob\<lparr>settled := Some p\<rparr>) (?s1\<lparr>received := received s @ [p]\<rparr>)"
  have s1: "queue ?s1 = queue s" "objs ?s1 = objs s" "received ?s1 = received s"
    "delivered ?s1 = delivered s" "invs ?s1 = invs s"
    by (simp_all add: upd_sock_def)
  from q have hq: "?c \<in> set (queue s)" by (rule hd_in_set)
  from wf_queueD[OF w hq] have c: "?c < length (objs s)" and na: "\<not> answered s ?c" by simp_all
  have om: "on_message (1, p) ?s1 = ?s2"
    using q u by (simp add: on_message_def Let_def s1)
  then have fm: "fold on_message [(1, p)] ?s1 = ?s2" by simp
  have "wf (on_message (1, p) ?s1)" using w by simp
  then have w2: "wf ?s2" by (simp only: om)
  have s2: "queue ?s2 = queue s" "delivered ?s2 = delivered s" "received ?s2 = received s @ [p]"
    "settled (objs ?s2 ! ?c) = Some p" "reactions (objs ?s2 ! ?c) = reactions (objs s ! ?c)"
    "length (objs ?s2) = length (objs s)" "invs ?s2 = invs s"
    using c by (simp_all add: upd_obj_def s1)
  have aw: "awaiting_response ?s2 i" using i(2) by (simp add: awaiting_response_def s2 s1)
  have na2: "\<not> answered ?s2 ?c" using na by (simp add: answered_def s2 s1)
  have "delivered (drain ?c ?s2) = delivered ?s2 @ [(?c, Relayed p)]"
    by (rule drain_delivers[OF w2 _ na2 s2(4) _ aw]) (use c i(1) in \<open>simp_all add: s2 s1\<close>)
  moreover have "on_sock_data k f s = drain ?c ?s2"
    unfolding on_sock_data_def Let_def b od fst_conv snd_conv fm using q by (simp add: s1)
  ultimately show "delivered (on_sock_data k f s) = delivered s @ [(hd (queue s), Relayed p)]"
    by (simp add: s2 s1)
qed


subsection \<open>The log of received payloads\<close>

lemma processingLoop_received [simp]: "received (processingLoop s) = received s"
proof -
  have "received s = received s \<Longrightarrow> received (processingLoop s) = received s"
    by (induction rule: processingLoop_rule[where P = "\<lambda>s'. received s' = received s"])
       (simp_all add: listen_end_def)
  then show ?thesis by simp
qed

lemma after_response_received [simp]: "received (after_response i r s) = received s"
  by (simp add: after_response_def Let_def finish_def)

lemma drain_received [simp]: "received (drain c s) = received s"
proof (cases "settled (objs s ! c)")
  case None
  then show ?thesis by (simp add: drain_def)
next
  case (Some p)
  have "received (fold (\<lambda>i s'. if awaiting_response s' i then after_response i (Some p) s' else s')
               (reactions (objs s ! c)) s) = received s"
    by (rule fold_preserves[where P = "\<lambda>s'. received s' = received s"]) simp_all
  with Some show ?thesis by (simp add: drain_def)
qed

lemma on_message_received:
  "received (on_message m s) = received s @ (if fst m = 1 then [snd m] else [])"
  by (cases m) (simp add: on_message_def Let_def)

lemma fold_on_message_received:
  "received (fold on_message ms s) = received s @ map snd (filter (\<lambda>m. fst m = 1) ms)"
  by (induction ms arbitrary: s) (simp_all add: on_message_received)

lemma on_sock_data_received:
  "received (on_sock_data k chunk s) =
     received s @ map snd (filter (\<lambda>m. fst m = 1) (fst (on_data (rbuf (socks s ! k)) chunk)))"
  by (simp add: on_sock_data_def Let_def fold_on_message_received upd_sock_def)

section \<open>The response timer\<close>

lemma timeout_at_head:
  assumes w: "wf s" and a: "\<not> exited s" and i: "i < length (invs s)"
    and p: "pc (invs s ! i) = AwaitResp d" and q: "queue s \<noteq> []"
    and h: "hd (queue s) = current (invs s ! i)"
  shows "now s < d \<Longrightarrow> step (Timeout i) s = None"
    and "d \<le> now s \<Longrightarrow> step (Timeout i) s = Some (after_response i None s)"
    and "delivered (after_response i None s) = delivered s @ [(hd (queue s), GatewayTimeout504)]"
proof -
  from q have hq: "hd (queue s) \<in> set (queue s)" by (rule hd_in_set)
  from wf_invD[OF w i] h have nc: "\<not> isConnect (objs s ! hd (queue s))"
    by (simp add: wf_inv_def)
  from wf_queueD[OF w hq] have na: "\<not> answered s (hd (queue s))" by simp
  show "now s < d \<Longrightarrow> step (Timeout i) s = None"
    using p by (simp add: step_def timeout_due_def)
  show "d \<le> now s \<Longrightarrow> step (Timeout i) s = Some (after_response i None s)"
    using a i p by (simp add: step_def timeout_due_def)
  show "delivered (after_response i None s) = delivered s @ [(hd (queue s), GatewayTimeout504)]"
    using nc na h by (simp add: after_response_delivered)
qed

section \<open>Runs of the relay\<close>

lemmas relay_defs =
  rstep_def rinit_def handleClient_def on_rdata_def on_rclose_def relay_loop.simps
  handleRequestQueue.simps cleanupRequest_def push_request_def client_gone_def
  sendFramedMessage_def writeUInt32BE_def readUInt32BE_def reply_and_cleanup_def
  on_http_done_def on_http_error_def errorResp_def on_conn_established_def on_conn_error_def
  on_conn_close_def call_is_def upd_rsock_def upd_call_def example_platform_def ascii_def Let_def

lemma handleRequestQueue_replies [simp]:
  "replies (handleRequestQueue P s) = replies s"
proof (induction P s rule: handleRequestQueue.induct)
  case (1 P s)
  show ?case
  proof (cases "r_processing s \<or> requestQueue s = [] \<or> client_gone s")
    case True
    then show ?thesis by (subst handleRequestQueue.simps) auto
  next
    case False
    then show ?thesis
      using "1.IH"(1)[OF _ refl refl refl] "1.IH"(2)[OF _ refl refl refl]
      by (subst handleRequestQueue.simps) (auto simp: Let_def split: req_class.splits)
  qed
qed

lemma handleRequestQueue_crashed [simp]:
  "crashed (handleRequestQueue P s) = crashed s"
proof (induction P s rule: handleRequestQueue.induct)
  case (1 P s)
  show ?case
  proof (cases "r_processing s \<or> requestQueue s = [] \<or> client_gone s")
    case True
    then show ?thesis by (subst handleRequestQueue.simps) auto
  next
    case False
    then show ?thesis
      using "1.IH"(1)[OF _ refl refl refl] "1.IH"(2)[OF _ refl refl refl]
      by (subst handleRequestQueue.simps) (auto simp: Let_def split: req_class.splits)
  qed
qed

lemma upd_call_fields [simp]:
  "clientSocket (upd_call j g s) = clientSocket s" "rsocks (upd_call j g s) = rsocks s"
  "replies (upd_call j g s) = replies s" "crashed (upd_call j g s) = crashed s"
  "requestQueue (upd_call j g s) = requestQueue s" "pushes (upd_call j g s) = pushes s"
  "r_processing (upd_call j g s) = r_processing s"
  "length (calls (upd_call j g s)) = length (calls s)"
  by (simp_all add: upd_call_def)

lemma upd_call_c_msg [simp]:
  "c_msg (calls (upd_call j (\<lambda>x. x\<lparr>c_state := st\<rparr>) s) ! i) = c_msg (calls s ! i)"
  by (cases "j < length (calls s)") (simp_all add: upd_call_def nth_list_update list_update_beyond)

text \<open>What \<open>sendFramedMessage\<close> and \<open>cleanupRequest\<close> do to the log and to the sockets.\<close>

lemma reply_and_cleanup_live:
  assumes k: "clientSocket s = Some k" "k < length (rsocks s)" "\<not> r_destroyed (rsocks s ! k)"
    and l: "length payload < 2 ^ 32"
  shows "\<exists>f. sendMessage 1 payload = Inr f \<and>
             rsocks (reply_and_cleanup P j payload s) =
               (rsocks s)[k := (rsocks s ! k)\<lparr>r_out := r_out (rsocks s ! k) @ f\<rparr>] \<and>
             replies (reply_and_cleanup P j payload s) = replies s @ [(k, c_msg (calls s ! j), payload)] \<and>
             crashed (reply_and_cleanup P j payload s) = crashed s"
proof -
  obtain len where len: "writeUInt32BE (length payload) = Inr len"
    using l by (simp add: writeUInt32BE_def)
  then have f: "sendMessage 1 payload = Inr (len @ [1] @ payload)"
    by (simp add: sendMessage_def)
  have "sendFramedMessage (c_msg (calls s ! j)) 1 payload s =
     Inr ((upd_rsock k (\<lambda>x. x\<lparr>r_out := r_out x @ len @ [1] @ payload\<rparr>) s)
            \<lparr>replies := replies s @ [(k, c_msg (calls s ! j), payload)]\<rparr>)"
    using k len by (simp add: sendFramedMessage_def)
  then have "reply_and_cleanup P j payload s =
     cleanupRequest P ((upd_rsock k (\<lambda>x. x\<lparr>r_out := r_out x @ len @ [1] @ payload\<rparr>) s)
            \<lparr>replies := replies s @ [(k, c_msg (calls s ! j), payload)]\<rparr>)"
    by (simp add: reply_and_cleanup_def)
  with f show ?thesis
    by (simp add: cleanupRequest_def upd_rsock_def)
qed

lemma reply_and_cleanup_gone:
  assumes "client_gone s"
  shows "rsocks (reply_and_cleanup P j payload s) = rsocks s \<and>
         replies (reply_and_cleanup P j payload s) = replies s \<and>
         crashed (reply_and_cleanup P j payload s) = crashed s"
proof -
  from assms have "sendFramedMessage (c_msg (calls s ! j)) 1 payload s = Inr s"
    by (simp add: sendFramedMessage_def client_gone_def split: option.splits)
  then show ?thesis by (simp add: reply_and_cleanup_def cleanupRequest_def)
qed

section \<open>The relay's invariant\<close>

lemma rwf_rinit: "rwf rinit"
  by (simp add: rwf_def rinit_def)

text \<open>A rule for properties that every branch of \<open>handleRequestQueue\<close> keeps.\<close>

lemma handleRequestQueue_rule [consumes 1, case_names throws call call_throws]:
  assumes P: "Q s"
    and throws: "\<And>s. Q s \<Longrightarrow> \<not> r_processing s \<Longrightarrow> requestQueue s \<noteq> [] \<Longrightarrow>
        Q (s\<lparr>r_processing := False, requestQueue := tl (requestQueue s)\<rparr>)"
    and call: "\<And>s kd. Q s \<Longrightarrow> \<not> r_processing s \<Longrightarrow> requestQueue s \<noteq> [] \<Longrightarrow>
        Q (s\<lparr>r_processing := True,
              calls := calls s @ [\<lparr>c_msg = fst (hd (requestQueue s)), c_kind = kd, c_state = Pending\<rparr>]\<rparr>)"
    and call_throws: "\<And>s. Q s \<Longrightarrow> \<not> r_processing s \<Longrightarrow> requestQueue s \<noteq> [] \<Longrightarrow>
        Q (s\<lparr>calls := calls s @ [\<lparr>c_msg = fst (hd (requestQueue s)), c_kind = HttpCall, c_state = Pending\<rparr>],
              r_processing := False, requestQueue := tl (requestQueue s)\<rparr>)"
  shows "Q (handleRequestQueue P s)"
  using P
proof (induction P s rule: handleRequestQueue.induct)
  case (1 P s)
  show ?case
  proof (cases "r_processing s \<or> requestQueue s = [] \<or> client_gone s")
    case True
    with "1.prems" show ?thesis by (subst handleRequestQueue.simps) auto
  next
    case False
    then have np: "\<not> r_processing s" and ne: "requestQueue s \<noteq> []" by simp_all
    show ?thesis
    proof (cases "classify P (snd (hd (requestQueue s)))")
      case Throws
      have "Q (handleRequestQueue P (s\<lparr>r_processing := False, requestQueue := tl (requestQueue s)\<rparr>))"
        using "1.IH"(1)[OF False refl refl refl Throws] throws[OF "1.prems" np ne] by simp
      with False Throws show ?thesis
        by (subst handleRequestQueue.simps) (simp add: Let_def)
    next
      case ConnectReq
      with False call[OF "1.prems" np ne, of ConnectCall] show ?thesis
        by (subst handleRequestQueue.simps) (simp add: Let_def)
    next
      case HttpReq
      with False call[OF "1.prems" np ne, of HttpCall] show ?thesis
        by (subst handleRequestQueue.simps) (simp add: Let_def)
    next
      case HttpReqThrows
      have "Q (handleRequestQueue P
          (s\<lparr>calls := calls s @ [\<lparr>c_msg = fst (hd (requestQueue s)), c_kind = HttpCall, c_state = Pending\<rparr>],
             r_processing := False, requestQueue := tl (requestQueue s)\<rparr>))"
        using "1.IH"(2)[OF False refl refl refl HttpReqThrows] call_throws[OF "1.prems" np ne] by simp
      with False HttpReqThrows show ?thesis
        by (subst handleRequestQueue.simps) (simp add: Let_def)
    qed
  qed
qed

lemma rwfI:
  assumes "\<And>k. k < length (rsocks s) \<Longrightarrow> r_accepted (rsocks s ! k) \<Longrightarrow> \<not> r_closed (rsocks s ! k) \<Longrightarrow>
             clientSocket s = Some k"
    and "\<And>k. k < length (rsocks s) \<Longrightarrow> r_closed (rsocks s ! k) \<Longrightarrow> r_destroyed (rsocks s ! k)"
    and "sorted_wrt (<) (map fst (requestQueue s))"
    and "\<And>x. x \<in> set (requestQueue s) \<Longrightarrow> fst x < pushes s"
    and "sorted_wrt (<) (map c_msg (calls s))"
    and "\<And>c. c \<in> set (calls s) \<Longrightarrow> c_msg c < pushes s"
    and "\<And>c x. c \<in> set (calls s) \<Longrightarrow> x \<in> set (requestQueue s) \<Longrightarrow> c_msg c \<le> fst x"
    and "\<And>c x. c \<in> set (calls s) \<Longrightarrow> x \<in> set (requestQueue s) \<Longrightarrow> \<not> r_processing s \<Longrightarrow>
             c_msg c < fst x"
    and "\<And>r. r \<in> set (replies s) \<Longrightarrow> fst (snd r) \<in> c_msg ` set (calls s)"
  shows "rwf s"
  unfolding rwf_def using assms by blast

lemma rwf_sockD:
  "rwf s \<Longrightarrow> k < length (rsocks s) \<Longrightarrow> r_accepted (rsocks s ! k) \<Longrightarrow> \<not> r_closed (rsocks s ! k) \<Longrightarrow>
     clientSocket s = Some k"
  unfolding rwf_def by blast

lemma rwf_closedD:
  "rwf s \<Longrightarrow> k < length (rsocks s) \<Longrightarrow> r_closed (rsocks s ! k) \<Longrightarrow> r_destroyed (rsocks s ! k)"
  unfolding rwf_def by blast

lemma rwf_queue_sorted: "rwf s \<Longrightarrow> sorted_wrt (<) (map fst (requestQueue s))"
  unfolding rwf_def by blast

lemma rwf_queueD: "rwf s \<Longrightarrow> x \<in> set (requestQueue s) \<Longrightarrow> fst x < pushes s"
  unfolding rwf_def by blast

lemma rwf_calls_sorted: "rwf s \<Longrightarrow> sorted_wrt (<) (map c_msg (calls s))"
  unfolding rwf_def by blast

lemma rwf_callD: "rwf s \<Longrightarrow> c \<in> set (calls s) \<Longrightarrow> c_msg c < pushes s"
  unfolding rwf_def by blast

lemma rwf_call_queueD:
  "rwf s \<Longrightarrow> c \<in> set (calls s) \<Longrightarrow> x \<in> set (requestQueue s) \<Longrightarrow> c_msg c \<le> fst x"
  unfolding rwf_def by blast

lemma rwf_call_idleD:
  "rwf s \<Longrightarrow> c \<in> set (calls s) \<Longrightarrow> x \<in> set (requestQueue s) \<Longrightarrow> \<not> r_processing s \<Longrightarrow>
     c_msg c < fst x"
  unfolding rwf_def by blast

lemma rwf_replyD: "rwf s \<Longrightarrow> r \<in> set (replies s) \<Longrightarrow> fst (snd r) \<in> c_msg ` set (calls s)"
  unfolding rwf_def by blast

lemma tl_subset: "x \<in> set (tl q) \<Longrightarrow> x \<in> set q"
  by (cases q) simp_all

lemma head_before_tail:
  fixes q :: "(nat \<times> 'b) list"
  assumes "sorted_wrt (<) (map fst q)" "q \<noteq> []" "x \<in> set (tl q)"
  shows "fst (hd q) < fst x"
  using assms by (cases q) auto

lemma head_least:
  fixes q :: "(nat \<times> 'b) list"
  assumes "sorted_wrt (<) (map fst q)" "x \<in> set q"
  shows "fst (hd q) \<le> fst x"
  using assms by (cases q) auto

lemma rwf_shift:
  assumes w: "rwf s"
  shows "rwf (s\<lparr>r_processing := b, requestQueue := tl (requestQueue s)\<rparr>)" (is "rwf ?s'")
proof (rule rwfI)
  show "sorted_wrt (<) (map fst (requestQueue ?s'))"
    using rwf_queue_sorted[OF w] by (cases "requestQueue s") simp_all
  show "\<And>x. x \<in> set (requestQueue ?s') \<Longrightarrow> fst x < pushes ?s'"
    using rwf_queueD[OF w] by (auto dest: tl_subset)
  show "\<And>c x. c \<in> set (calls ?s') \<Longrightarrow> x \<in> set (requestQueue ?s') \<Longrightarrow> c_msg c \<le> fst x"
    using rwf_call_queueD[OF w] by (auto dest: tl_subset)
  show "\<And>c x. c \<in> set (calls ?s') \<Longrightarrow> x \<in> set (requestQueue ?s') \<Longrightarrow> \<not> r_processing ?s' \<Longrightarrow>
          c_msg c < fst x"
  proof -
    fix c x assume c: "c \<in> set (calls ?s')" and x: "x \<in> set (requestQueue ?s')"
    then have ne: "requestQueue s \<noteq> []" by auto
    from x have x': "x \<in> set (tl (requestQueue s))" by simp
    from head_before_tail[OF rwf_queue_sorted[OF w] ne x']
      rwf_call_queueD[OF w, of c "hd (requestQueue s)"] c ne
    show "c_msg c < fst x" by simp
  qed
qed (use w in \<open>simp_all add: rwf_sockD rwf_closedD rwf_calls_sorted rwf_callD rwf_replyD\<close>)

lemma rwf_call:
  assumes w: "rwf s" and np: "\<not> r_processing s" and ne: "requestQueue s \<noteq> []"
  shows "rwf (s\<lparr>r_processing := True,
              calls := calls s @ [\<lparr>c_msg = fst (hd (requestQueue s)), c_kind = kd, c_state = Pending\<rparr>]\<rparr>)"
    (is "rwf ?s'")
proof (rule rwfI)
  let ?m = "fst (hd (requestQueue s))"
  from ne have hq: "hd (requestQueue s) \<in> set (requestQueue s)" by simp
  show "sorted_wrt (<) (map c_msg (calls ?s'))"
    using rwf_calls_sorted[OF w] rwf_call_idleD[OF w _ hq np]
    by (auto simp: sorted_wrt_append)
  show "\<And>c. c \<in> set (calls ?s') \<Longrightarrow> c_msg c < pushes ?s'"
    using rwf_callD[OF w] rwf_queueD[OF w hq] by auto
  show "\<And>c x. c \<in> set (calls ?s') \<Longrightarrow> x \<in> set (requestQueue ?s') \<Longrightarrow> c_msg c \<le> fst x"
    using rwf_call_queueD[OF w] head_least[OF rwf_queue_sorted[OF w]] by auto
  show "\<And>c x. c \<in> set (calls ?s') \<Longrightarrow> x \<in> set (requestQueue ?s') \<Longrightarrow> \<not> r_processing ?s' \<Longrightarrow>
          c_msg c < fst x"
    by simp
  show "\<And>r. r \<in> set (replies ?s') \<Longrightarrow> fst (snd r) \<in> c_msg ` set (calls ?s')"
    using rwf_replyD[OF w] by auto
qed (use w in \<open>simp_all add: rwf_sockD rwf_closedD rwf_queue_sorted rwf_queueD\<close>)

lemma rwf_handleRequestQueue: "rwf s \<Longrightarrow> rwf (handleRequestQueue P s)"
proof (induction rule: handleRequestQueue_rule)
  case (throws s)
  then show ?case by (simp add: rwf_shift)
next
  case (call s kd)
  then show ?case by (simp add: rwf_call)
next
  case (call_throws s)
  let ?s1 = "s\<lparr>r_processing := True,
      calls := calls s @ [\<lparr>c_msg = fst (hd (requestQueue s)), c_kind = HttpCall, c_state = Pending\<rparr>]\<rparr>"
  from call_throws have "rwf ?s1" by (simp add: rwf_call)
  from rwf_shift[OF this, of False] show ?case by simp
qed

lemma rwf_push: "rwf s \<Longrightarrow> rwf (push_request msg s)"
proof -
  assume w: "rwf s"
  show ?thesis
  proof (rule rwfI)
    show "sorted_wrt (<) (map fst (requestQueue (push_request msg s)))"
      using rwf_queue_sorted[OF w] rwf_queueD[OF w]
      by (auto simp: push_request_def sorted_wrt_append)
    show "\<And>x. x \<in> set (requestQueue (push_request msg s)) \<Longrightarrow> fst x < pushes (push_request msg s)"
      using rwf_queueD[OF w] by (auto simp: push_request_def less_Suc_eq)
    show "\<And>c. c \<in> set (calls (push_request msg s)) \<Longrightarrow> c_msg c < pushes (push_request msg s)"
      using rwf_callD[OF w] by (auto simp: push_request_def less_Suc_eq)
    show "\<And>c x. c \<in> set (calls (push_request msg s)) \<Longrightarrow> x \<in> set (requestQueue (push_request msg s)) \<Longrightarrow>
        c_msg c \<le> fst x"
      using rwf_call_queueD[OF w] rwf_callD[OF w] by (auto simp: push_request_def less_imp_le)
    show "\<And>c x. c \<in> set (calls (push_request msg s)) \<Longrightarrow> x \<in> set (requestQueue (push_request msg s)) \<Longrightarrow>
        \<not> r_processing (push_request msg s) \<Longrightarrow> c_msg c < fst x"
      using rwf_call_idleD[OF w] rwf_callD[OF w] by (auto simp: push_request_def)
  qed (use w in \<open>simp_all add: push_request_def rwf_sockD rwf_closedD rwf_calls_sorted rwf_replyD\<close>)
qed

lemma rwf_cleanupRequest: "rwf s \<Longrightarrow> rwf (cleanupRequest P s)"
  unfolding cleanupRequest_def by (intro rwf_handleRequestQueue rwf_shift)

text \<open>Changes that the invariant does not look at.\<close>

lemma rwf_core_eq:
  assumes "clientSocket s' = clientSocket s" "requestQueue s' = requestQueue s"
    "r_processing s' = r_processing s" "calls s' = calls s" "pushes s' = pushes s"
    "replies s' = replies s" "length (rsocks s') = length (rsocks s)"
    "\<And>k. k < length (rsocks s) \<Longrightarrow> r_accepted (rsocks s' ! k) = r_accepted (rsocks s ! k) \<and>
        r_closed (rsocks s' ! k) = r_closed (rsocks s ! k) \<and>
        r_destroyed (rsocks s' ! k) = r_destroyed (rsocks s ! k)"
  shows "rwf s' = rwf s"
  unfolding rwf_def using assms by simp

lemma nth_update_keeps:
  assumes "\<And>x. h (g x) = h x"
  shows "h (xs[k := g (xs ! k)] ! j) = h (xs ! j)"
proof (cases "k < length xs")
  case True
  then show ?thesis by (cases "k = j") (simp_all add: assms)
next
  case False
  then show ?thesis by (simp add: list_update_beyond)
qed

lemma rwf_upd_rsock_buf [simp]:
  "rwf (upd_rsock k (\<lambda>x. x\<lparr>r_buf := b\<rparr>) s) = rwf s"
  "rwf (upd_rsock k (\<lambda>x. x\<lparr>r_out := r_out x @ f\<rparr>) s) = rwf s"
  by (rule rwf_core_eq; simp add: upd_rsock_def nth_update_keeps)+

lemma rwf_crashed [simp]: "rwf (s\<lparr>crashed := b\<rparr>) = rwf s"
  by (rule rwf_core_eq) simp_all

lemma upd_rsock_fields [simp]:
  "clientSocket (upd_rsock k g s) = clientSocket s" "requestQueue (upd_rsock k g s) = requestQueue s"
  "r_processing (upd_rsock k g s) = r_processing s" "calls (upd_rsock k g s) = calls s"
  "pushes (upd_rsock k g s) = pushes s" "replies (upd_rsock k g s) = replies s"
  "crashed (upd_rsock k g s) = crashed s" "length (rsocks (upd_rsock k g s)) = length (rsocks s)"
  by (simp_all add: upd_rsock_def)

lemma rwf_ids:
  "rwf s =
     ((\<forall>k < length (rsocks s).
         r_accepted (rsocks s ! k) \<and> \<not> r_closed (rsocks s ! k) \<longrightarrow> clientSocket s = Some k) \<and>
      (\<forall>k < length (rsocks s). r_closed (rsocks s ! k) \<longrightarrow> r_destroyed (rsocks s ! k)) \<and>
      sorted_wrt (<) (map fst (requestQueue s)) \<and>
      (\<forall>x \<in> set (requestQueue s). fst x < pushes s) \<and>
      sorted_wrt (<) (map c_msg (calls s)) \<and>
      (\<forall>m \<in> set (map c_msg (calls s)). m < pushes s \<and>
         (\<forall>x \<in> set (requestQueue s). m \<le> fst x \<and> (\<not> r_processing s \<longrightarrow> m < fst x))) \<and>
      (\<forall>r \<in> set (replies s). fst (snd r) \<in> set (map c_msg (calls s))))"
  unfolding rwf_def by simp

lemma rwf_calls_eq:
  assumes "clientSocket s' = clientSocket s" "requestQueue s' = requestQueue s"
    "r_processing s' = r_processing s" "map c_msg (calls s') = map c_msg (calls s)"
    "pushes s' = pushes s" "replies s' = replies s" "rsocks s' = rsocks s"
  shows "rwf s' = rwf s"
  unfolding rwf_ids using assms by simp

lemma map_c_msg_upd_call [simp]:
  "map c_msg (calls (upd_call j (\<lambda>x. x\<lparr>c_state := st\<rparr>) s)) = map c_msg (calls s)"
proof (cases "j < length (calls s)")
  case True
  then have "(map c_msg (calls s))[j := c_msg (calls s ! j)] = map c_msg (calls s)"
    using list_update_id[of "map c_msg (calls s)" j] by simp
  then show ?thesis by (simp add: upd_call_def map_update)
next
  case False
  then show ?thesis by (simp add: upd_call_def list_update_beyond)
qed

lemma rwf_upd_call [simp]: "rwf (upd_call j (\<lambda>x. x\<lparr>c_state := st\<rparr>) s) = rwf s"
  by (rule rwf_calls_eq) simp_all

lemma rwf_relay_loop: "rwf s \<Longrightarrow> rwf (fst (relay_loop P s b))"
proof (induction P s b rule: relay_loop.induct)
  case (1 P s buffer)
  show ?case
  proof (cases "5 \<le> length buffer \<and> readUInt32BE buffer + 5 \<le> length buffer")
    case False
    then have "relay_loop P s buffer = (s, buffer)"
      by (intro relay_loop_stop) auto
    with "1.prems" show ?thesis by simp
  next
    case True
    show ?thesis
    proof (cases "unat (buffer ! 4) \<noteq> 0")
      case t: True
      from "1.IH"(1)[OF _ refl _ refl t "1.prems"] True
      have "rwf (fst (relay_loop P s (drop (5 + readUInt32BE buffer) buffer)))" by simp
      with True t show ?thesis by (simp add: relay_loop_complete)
    next
      case f: False
      have "rwf (handleRequestQueue P (push_request (take (readUInt32BE buffer) (drop 5 buffer)) s))"
        by (intro rwf_handleRequestQueue rwf_push "1.prems")
      from "1.IH"(2)[OF _ refl _ refl f refl this] True
      have "rwf (fst (relay_loop P (handleRequestQueue P (push_request (take (readUInt32BE buffer) (drop 5 buffer)) s))
          (drop (5 + readUInt32BE buffer) buffer)))" by simp
      with True f show ?thesis by (simp add: relay_loop_complete)
    qed
  qed
qed

lemma rwf_on_rdata: "rwf s \<Longrightarrow> rwf (on_rdata P k chunk s)"
  by (simp add: on_rdata_def Let_def rwf_relay_loop)

lemma rwf_handleClient: "rwf s \<Longrightarrow> rwf (handleClient s)"
proof -
  assume w: "rwf s"
  show ?thesis
  proof (cases "clientSocket s")
    case None
    have no: "\<And>k. k < length (rsocks s) \<Longrightarrow> r_accepted (rsocks s ! k) \<Longrightarrow> r_closed (rsocks s ! k)"
      using rwf_sockD[OF w] None by fastforce
    show ?thesis
    proof (rule rwfI)
      fix k assume k: "k < length (rsocks (handleClient s))"
        and a: "r_accepted (rsocks (handleClient s) ! k)" "\<not> r_closed (rsocks (handleClient s) ! k)"
      show "clientSocket (handleClient s) = Some k"
      proof (cases "k < length (rsocks s)")
        case True
        with a None no[OF True] show ?thesis by (simp add: handleClient_def nth_append)
      next
        case False
        with k None show ?thesis by (simp add: handleClient_def)
      qed
    next
      fix k assume "k < length (rsocks (handleClient s))" "r_closed (rsocks (handleClient s) ! k)"
      with None rwf_closedD[OF w, of k] show "r_destroyed (rsocks (handleClient s) ! k)"
        by (cases "k < length (rsocks s)") (auto simp: handleClient_def nth_append)
    qed (use w None in \<open>simp_all add: handleClient_def rwf_queue_sorted rwf_queueD rwf_calls_sorted
          rwf_callD rwf_call_queueD rwf_call_idleD rwf_replyD\<close>)
  next
    case (Some c)
    show ?thesis
    proof (rule rwfI)
      fix k assume k: "k < length (rsocks (handleClient s))"
        and a: "r_accepted (rsocks (handleClient s) ! k)" "\<not> r_closed (rsocks (handleClient s) ! k)"
      with Some have "k < length (rsocks s)"
        by (cases "k < length (rsocks s)") (auto simp: handleClient_def nth_append)
      with a Some rwf_sockD[OF w this] show "clientSocket (handleClient s) = Some k"
        by (simp add: handleClient_def nth_append)
    next
      fix k assume "k < length (rsocks (handleClient s))" "r_closed (rsocks (handleClient s) ! k)"
      with Some rwf_closedD[OF w, of k] show "r_destroyed (rsocks (handleClient s) ! k)"
        by (cases "k < length (rsocks s)") (auto simp: handleClient_def nth_append)
    qed (use w Some in \<open>simp_all add: handleClient_def rwf_queue_sorted rwf_queueD rwf_calls_sorted
          rwf_callD rwf_call_queueD rwf_call_idleD rwf_replyD\<close>)
  qed
qed

lemma rwf_on_rclose:
  assumes w: "rwf s" and k: "k < length (rsocks s)" "r_accepted (rsocks s ! k)" "\<not> r_closed (rsocks s ! k)"
  shows "rwf (on_rclose k s)"
proof (rule rwfI)
  fix j assume j: "j < length (rsocks (on_rclose k s))"
    and a: "r_accepted (rsocks (on_rclose k s) ! j)" "\<not> r_closed (rsocks (on_rclose k s) ! j)"
  from j have j': "j < length (rsocks s)" by (simp add: on_rclose_def upd_rsock_def)
  from a k have ne: "j \<noteq> k" by (auto simp: on_rclose_def upd_rsock_def)
  with a have "r_accepted (rsocks s ! j)" "\<not> r_closed (rsocks s ! j)"
    by (simp_all add: on_rclose_def upd_rsock_def)
  from rwf_sockD[OF w j' this] rwf_sockD[OF w k] ne
  show "clientSocket (on_rclose k s) = Some j" by simp
next
  fix j assume "j < length (rsocks (on_rclose k s))" "r_closed (rsocks (on_rclose k s) ! j)"
  with rwf_closedD[OF w, of j] k show "r_destroyed (rsocks (on_rclose k s) ! j)"
    by (cases "j = k") (auto simp: on_rclose_def upd_rsock_def)
qed (use w in \<open>simp_all add: on_rclose_def upd_rsock_def rwf_calls_sorted rwf_callD rwf_replyD\<close>)

lemma rwf_sock_error:
  "rwf s \<Longrightarrow> rwf (upd_rsock k (\<lambda>x. x\<lparr>r_destroyed := True\<rparr>) s)"
proof -
  assume w: "rwf s"
  show ?thesis
  proof (rule rwfI)
    fix j assume "j < length (rsocks (upd_rsock k (\<lambda>x. x\<lparr>r_destroyed := True\<rparr>) s))"
      "r_accepted (rsocks (upd_rsock k (\<lambda>x. x\<lparr>r_destroyed := True\<rparr>) s) ! j)"
      "\<not> r_closed (rsocks (upd_rsock k (\<lambda>x. x\<lparr>r_destroyed := True\<rparr>) s) ! j)"
    with rwf_sockD[OF w, of j]
    show "clientSocket (upd_rsock k (\<lambda>x. x\<lparr>r_destroyed := True\<rparr>) s) = Some j"
      by (cases "j = k") (auto simp: upd_rsock_def)
  next
    fix j assume "j < length (rsocks (upd_rsock k (\<lambda>x. x\<lparr>r_destroyed := True\<rparr>) s))"
      "r_closed (rsocks (upd_rsock k (\<lambda>x. x\<lparr>r_destroyed := True\<rparr>) s) ! j)"
    with rwf_closedD[OF w, of j]
    show "r_destroyed (rsocks (upd_rsock k (\<lambda>x. x\<lparr>r_destroyed := True\<rparr>) s) ! j)"
      by (cases "j = k") (auto simp: upd_rsock_def)
  qed (use w in \<open>simp_all add: upd_rsock_def rwf_queue_sorted rwf_queueD rwf_calls_sorted
          rwf_callD rwf_call_queueD rwf_call_idleD rwf_replyD\<close>)
qed

lemma rwf_add_reply:
  assumes w: "rwf s" and m: "m \<in> c_msg ` set (calls s)"
  shows "rwf (s\<lparr>replies := replies s @ [(k, m, p)]\<rparr>)"
proof (rule rwfI)
  fix r assume "r \<in> set (replies (s\<lparr>replies := replies s @ [(k, m, p)]\<rparr>))"
  then consider "r \<in> set (replies s)" | "r = (k, m, p)" by auto
  then show "fst (snd r) \<in> c_msg ` set (calls (s\<lparr>replies := replies s @ [(k, m, p)]\<rparr>))"
  proof cases
    case 1
    with rwf_replyD[OF w] show ?thesis by simp
  next
    case 2
    with m show ?thesis by simp
  qed
qed (use w in \<open>simp_all add: rwf_sockD rwf_closedD rwf_queue_sorted rwf_queueD rwf_calls_sorted
          rwf_callD rwf_call_queueD rwf_call_idleD\<close>)

lemma rwf_sendFramedMessage:
  assumes w: "rwf s" and j: "j < length (calls s)"
    and r: "sendFramedMessage (c_msg (calls s ! j)) t payload s = Inr s'"
  shows "rwf s'"
proof (cases "client_gone s")
  case True
  with r have "s' = s" by (simp add: sendFramedMessage_def client_gone_def split: option.splits)
  with w show ?thesis by simp
next
  case False
  then obtain k where k: "clientSocket s = Some k" "\<not> r_destroyed (rsocks s ! k)"
    by (auto simp: client_gone_def split: option.splits)
  with r obtain len where s': "s' = (upd_rsock k (\<lambda>x. x\<lparr>r_out := r_out x @ (len @ [of_nat t] @ payload)\<rparr>) s)
        \<lparr>replies := replies s @ [(k, c_msg (calls s ! j), payload)]\<rparr>"
    by (auto simp: sendFramedMessage_def split: sum.splits)
  define u where "u = upd_rsock k (\<lambda>x. x\<lparr>r_out := r_out x @ (len @ [of_nat t] @ payload)\<rparr>) s"
  have wu: "rwf u" using w unfolding u_def by (simp only: rwf_upd_rsock_buf)
  have u: "replies u = replies s" "calls u = calls s" by (simp_all add: u_def)
  from j have "c_msg (calls s ! j) \<in> c_msg ` set (calls u)" by (simp add: u)
  from rwf_add_reply[OF wu this, of k payload] show ?thesis
    unfolding s' u_def[symmetric] by (simp only: u)
qed

lemma rwf_reply_and_cleanup:
  assumes "rwf s" "j < length (calls s)"
  shows "rwf (reply_and_cleanup P j payload s)"
proof (cases "sendFramedMessage (c_msg (calls s ! j)) 1 payload s")
  case (Inl e)
  with assms show ?thesis by (simp add: reply_and_cleanup_def)
next
  case (Inr s')
  from rwf_sendFramedMessage[OF assms Inr] Inr show ?thesis
    by (simp add: reply_and_cleanup_def rwf_cleanupRequest)
qed

lemma rwf_rstep:
  assumes w: "rwf s" and st: "rstep P ev s = Some s'"
  shows "rwf s'"
proof (cases ev)
  case RAccept
  with st w show ?thesis by (auto simp: rstep_def rwf_handleClient split: if_splits)
next
  case (RData k chunk)
  with st w show ?thesis by (auto simp: rstep_def rwf_on_rdata split: if_splits)
next
  case (RSockError k)
  with st w show ?thesis by (auto simp: rstep_def rwf_sock_error split: if_splits)
next
  case (RClose k)
  with st w show ?thesis by (auto simp: rstep_def rwf_on_rclose split: if_splits)
next
  case (HttpDone j sc hs b)
  with st w show ?thesis
    by (auto simp: rstep_def on_http_done_def call_is_def intro!: rwf_reply_and_cleanup split: if_splits)
next
  case (HttpError j msg)
  with st w show ?thesis
    by (auto simp: rstep_def on_http_error_def call_is_def intro!: rwf_reply_and_cleanup split: if_splits)
next
  case (ConnEstablished j)
  with st have c: "j < length (calls s)" and s': "s' = on_conn_established j s"
    by (auto simp: rstep_def call_is_def split: if_splits)
  let ?u = "upd_call j (\<lambda>x. x\<lparr>c_state := Established\<rparr>) s"
  show ?thesis
  proof (cases "sendFramedMessage (c_msg (calls s ! j)) 1 [79, 75] ?u")
    case (Inl e)
    with w s' show ?thesis by (simp add: on_conn_established_def)
  next
    case (Inr t)
    have "rwf ?u" "j < length (calls ?u)" using w c by simp_all
    from rwf_sendFramedMessage[OF this, of 1 "[79, 75]" t] Inr
    have "rwf t" by simp
    with Inr s' show ?thesis by (simp add: on_conn_established_def)
  qed
next
  case (ConnError j)
  with st w show ?thesis
    by (auto simp: rstep_def on_conn_error_def call_is_def intro!: rwf_reply_and_cleanup split: if_splits)
next
  case (ConnClose j)
  with st w show ?thesis
    by (auto simp: rstep_def on_conn_close_def call_is_def intro!: rwf_cleanupRequest split: if_splits)
qed

lemma rwf_rrun: "rwf s \<Longrightarrow> rrun P tr s = Some s' \<Longrightarrow> rwf s'"
  by (induction tr arbitrary: s) (auto split: option.splits dest: rwf_rstep)

lemma rwf_reachable: "rrun P tr rinit = Some s \<Longrightarrow> rwf s"
  by (rule rwf_rrun[OF rwf_rinit])

subsection \<open>Entries that were dropped\<close>

lemma dropped_handleRequestQueue: "dropped m s \<Longrightarrow> dropped m (handleRequestQueue P s)"
proof (induction rule: handleRequestQueue_rule)
  case (throws s)
  then show ?case by (auto simp: dropped_def dest: tl_subset)
next
  case (call s kd)
  then have "hd (requestQueue s) \<in> set (requestQueue s)" by simp
  with call show ?case by (auto simp: dropped_def)
next
  case (call_throws s)
  then have "hd (requestQueue s) \<in> set (requestQueue s)" by simp
  with call_throws show ?case by (auto simp: dropped_def dest: tl_subset)
qed

lemma dropped_push: "dropped m s \<Longrightarrow> dropped m (push_request msg s)"
  by (auto simp: dropped_def push_request_def)

lemma relay_loop_rule:
  assumes "Q s" and "\<And>s msg. Q s \<Longrightarrow> Q (handleRequestQueue P (push_request msg s))"
  shows "Q (fst (relay_loop P s b))"
  using assms
proof (induction P s b rule: relay_loop.induct)
  case (1 P s buffer)
  note q = "1.prems"(1) and step = "1.prems"(2)
  show ?case
  proof (cases "5 \<le> length buffer \<and> readUInt32BE buffer + 5 \<le> length buffer")
    case False
    then have "relay_loop P s buffer = (s, buffer)"
      by (intro relay_loop_stop) auto
    with q show ?thesis by simp
  next
    case True
    show ?thesis
    proof (cases "unat (buffer ! 4) \<noteq> 0")
      case t: True
      have "Q (fst (relay_loop P s (drop (5 + readUInt32BE buffer) buffer)))"
        by (rule "1.IH"(1)[OF _ refl _ refl t q step]) (use True in simp_all)
      with True t show ?thesis by (simp add: relay_loop_complete)
    next
      case f: False
      have "Q (handleRequestQueue P (push_request (take (readUInt32BE buffer) (drop 5 buffer)) s))"
        by (intro step q)
      have "Q (fst (relay_loop P (handleRequestQueue P (push_request (take (readUInt32BE buffer) (drop 5 buffer)) s))
          (drop (5 + readUInt32BE buffer) buffer)))"
        by (rule "1.IH"(2)[OF _ refl _ refl f refl _ step]) (use True step q in simp_all)
      with True f show ?thesis by (simp add: relay_loop_complete)
    qed
  qed
qed

lemma dropped_fields:
  assumes "pushes s' = pushes s" "requestQueue s' = requestQueue s"
    "map c_msg (calls s') = map c_msg (calls s)"
  shows "dropped m s' = dropped m s"
proof -
  have "c_msg ` set (calls s') = c_msg ` set (calls s)"
    using assms(3) by (metis list.set_map)
  with assms show ?thesis by (simp add: dropped_def)
qed

lemma dropped_on_rdata: "dropped m s \<Longrightarrow> dropped m (on_rdata P k chunk s)"
proof -
  assume d: "dropped m s"
  have "dropped m (fst (relay_loop P s (r_buf (rsocks s ! k) @ chunk)))"
    by (rule relay_loop_rule[where Q = "dropped m", OF d])
       (intro dropped_handleRequestQueue dropped_push)
  then show ?thesis
    by (simp add: on_rdata_def Let_def dropped_fields[of "upd_rsock _ _ _"])
qed

lemma dropped_cleanupRequest: "dropped m s \<Longrightarrow> dropped m (cleanupRequest P s)"
  unfolding cleanupRequest_def
  by (rule dropped_handleRequestQueue) (auto simp: dropped_def dest: tl_subset)

lemma sendFramedMessage_fields:
  assumes "sendFramedMessage i t payload s = Inr s'"
  shows "pushes s' = pushes s" "requestQueue s' = requestQueue s" "calls s' = calls s"
    "clientSocket s' = clientSocket s" "r_processing s' = r_processing s"
  using assms by (auto simp: sendFramedMessage_def split: option.splits if_splits sum.splits)

lemma dropped_reply_and_cleanup:
  "dropped m s \<Longrightarrow> dropped m (reply_and_cleanup P j payload s)"
proof (cases "sendFramedMessage (c_msg (calls s ! j)) 1 payload s")
  case (Inl e)
  assume "dropped m s"
  with Inl show ?thesis by (simp add: reply_and_cleanup_def dropped_fields[of "_\<lparr>crashed := True\<rparr>"])
next
  case (Inr s')
  assume "dropped m s"
  with sendFramedMessage_fields[OF Inr] have "dropped m s'" by (simp add: dropped_fields[of s' s])
  with Inr show ?thesis by (simp add: reply_and_cleanup_def dropped_cleanupRequest)
qed

lemma dropped_upd_call [simp]: "dropped m (upd_call j (\<lambda>x. x\<lparr>c_state := st\<rparr>) s) = dropped m s"
  by (rule dropped_fields) simp_all

lemma dropped_rstep:
  assumes d: "dropped m s" and st: "rstep P ev s = Some s'"
  shows "dropped m s'"
proof (cases ev)
  case RAccept
  with st d show ?thesis
    by (auto simp: rstep_def handleClient_def dropped_def split: if_splits)
next
  case (RData k chunk)
  with st d show ?thesis by (auto simp: rstep_def dropped_on_rdata split: if_splits)
next
  case (RSockError k)
  with st d show ?thesis by (auto simp: rstep_def dropped_def split: if_splits)
next
  case (RClose k)
  with st d show ?thesis by (auto simp: rstep_def on_rclose_def dropped_def split: if_splits)
next
  case (HttpDone j sc hs b)
  with st d show ?thesis
    by (auto simp: rstep_def on_http_done_def intro!: dropped_reply_and_cleanup split: if_splits)
next
  case (HttpError j msg)
  with st d show ?thesis
    by (auto simp: rstep_def on_http_error_def intro!: dropped_reply_and_cleanup split: if_splits)
next
  case (ConnEstablished j)
  with st have s': "s' = on_conn_established j s" by (auto simp: rstep_def split: if_splits)
  let ?u = "upd_call j (\<lambda>x. x\<lparr>c_state := Established\<rparr>) s"
  show ?thesis
  proof (cases "sendFramedMessage (c_msg (calls s ! j)) 1 [79, 75] ?u")
    case (Inl e)
    with d s' show ?thesis
      by (simp add: on_conn_established_def dropped_fields[of "_\<lparr>crashed := True\<rparr>"])
  next
    case (Inr t)
    with sendFramedMessage_fields[OF Inr] d have "dropped m t"
      by (simp add: dropped_fields[of t ?u])
    with Inr s' show ?thesis by (simp add: on_conn_established_def)
  qed
next
  case (ConnError j)
  with st d show ?thesis
    by (auto simp: rstep_def on_conn_error_def intro!: dropped_reply_and_cleanup split: if_splits)
next
  case (ConnClose j)
  with st d show ?thesis
    by (auto simp: rstep_def on_conn_close_def intro!: dropped_cleanupRequest split: if_splits)
qed

lemma dropped_rrun: "dropped m s \<Longrightarrow> rrun P tr s = Some s' \<Longrightarrow> dropped m s'"
  by (induction tr arbitrary: s) (auto split: option.splits dest: dropped_rstep)

subsection \<open>The relay without a connection\<close>

lemma handleRequestQueue_empty: "requestQueue s = [] \<Longrightarrow> handleRequestQueue P s = s"
  by (subst handleRequestQueue.simps) simp

lemma idle_cleanupRequest: "idle s \<Longrightarrow> cleanupRequest P s = s"
  by (simp add: idle_def cleanupRequest_def handleRequestQueue_empty)

lemma idle_sendFramedMessage: "idle s \<Longrightarrow> sendFramedMessage i t payload s = Inr s"
  by (simp add: idle_def sendFramedMessage_def)

lemma idle_upd_call [simp]: "idle (upd_call j g s) = idle s"
  by (simp add: idle_def)

lemma idle_reply_and_cleanup: "idle s \<Longrightarrow> reply_and_cleanup P j payload s = s"
  by (simp add: reply_and_cleanup_def idle_sendFramedMessage idle_cleanupRequest)

lemma idle_no_socket_event:
  assumes w: "rwf s" and i: "idle s" and k: "k < length (rsocks s)" "r_accepted (rsocks s ! k)"
  shows "r_closed (rsocks s ! k)" "r_destroyed (rsocks s ! k)"
proof -
  show c: "r_closed (rsocks s ! k)"
    using rwf_sockD[OF w k] i by (auto simp: idle_def)
  from rwf_closedD[OF w k(1) c] show "r_destroyed (rsocks s ! k)" .
qed

lemma idle_rstep:
  assumes w: "rwf s" and i: "idle s" and st: "rstep P ev s = Some s'" and ev: "ev \<noteq> RAccept"
  shows "idle s'"
proof (cases ev)
  case RAccept
  with ev show ?thesis by simp
next
  case (RData k chunk)
  with st idle_no_socket_event[OF w i, of k] show ?thesis
    by (auto simp: rstep_def split: if_splits)
next
  case (RSockError k)
  with st idle_no_socket_event[OF w i, of k] show ?thesis
    by (auto simp: rstep_def split: if_splits)
next
  case (RClose k)
  with st idle_no_socket_event[OF w i, of k] show ?thesis
    by (auto simp: rstep_def split: if_splits)
next
  case (HttpDone j sc hs b)
  with st i show ?thesis
    by (auto simp: rstep_def on_http_done_def idle_reply_and_cleanup split: if_splits)
next
  case (HttpError j msg)
  with st i show ?thesis
    by (auto simp: rstep_def on_http_error_def idle_reply_and_cleanup split: if_splits)
next
  case (ConnEstablished j)
  with st i show ?thesis
    by (auto simp: rstep_def on_conn_established_def idle_sendFramedMessage split: if_splits)
next
  case (ConnError j)
  with st i show ?thesis
    by (auto simp: rstep_def on_conn_error_def idle_reply_and_cleanup split: if_splits)
next
  case (ConnClose j)
  with st i show ?thesis
    by (auto simp: rstep_def on_conn_close_def idle_cleanupRequest split: if_splits)
qed

lemma idle_rrun:
  "rwf s \<Longrightarrow> idle s \<Longrightarrow> rrun P tr s = Some s' \<Longrightarrow> RAccept \<notin> set tr \<Longrightarrow> idle s'"
proof (induction tr arbitrary: s)
  case Nil
  then show ?case by simp
next
  case (Cons ev tr)
  from Cons.prems(3) obtain t where t: "rstep P ev s = Some t" "rrun P tr t = Some s'"
    by (auto split: option.splits)
  from Cons.prems(4) have ev: "ev \<noteq> RAccept" "RAccept \<notin> set tr" by auto
  from idle_rstep[OF Cons.prems(1,2) t(1) ev(1)] rwf_rstep[OF Cons.prems(1) t(1)]
  show ?case by (intro Cons.IH[OF _ _ t(2) ev(2)])
qed

section \<open>Claims about the local dispatcher\<close>

text \<open>
  C1 (single request in flight). The close handler clears \<open>processing\<close> while a call of
  \<open>processingLoop\<close> is still suspended, so a second call can start on the same head of
  the queue. In the run below the relay connection closes while the body of request 0
  is still arriving; the reconnect timer fires, the new socket connects and its handler
  starts a second call, which waits for the same body. When the body ends, both calls
  write a type-0 frame for request 0 to the live socket 1: the second frame is written
  while the request of the first is unanswered, unsettled and still the head of the
  queue.
\<close>

theorem C1_second_frame_while_first_unresolved:
  "\<exists>s. run [SockConnect 0, Enqueue False ''http://example.com/upload'' None, SockClose 0,
            Tick 5000, ReconnectFire, SockConnect 1, ReqEnd 0] init = Some s \<and>
       sent s = [(Some 1, 0), (Some 1, 0)] \<and> queue s = [0] \<and> delivered s = [] \<and>
       settled (objs s ! 0) = None \<and> connected (socks s ! 1) \<and> \<not> destroyed (socks s ! 1)"
  by (simp add: client_defs)

lemma frame_A: "reader_loop [0, 0, 0, 1, 1, 65] = ([(1, [65])], [])"
proof -
  have "sendMessage 1 [65] = Inr [0, 0, 0, 1, 1, 65]"
    by (simp add: sendMessage_def writeUInt32BE_def)
  from reader_loop_frame[OF this, of "[]"] reader_loop_short[of "[]"] show ?thesis by simp
qed

text \<open>
  C2, as stated, fails when a timeout fires. Request 0 is sent and times out (504);
  request 1 is sent; the relay's answer to the first frame, \<open>[65]\<close>, arrives only now,
  in arrival order, and is written to the client of request 1.
\<close>

theorem C2_late_answer_counterexample:
  "\<exists>s. run [SockConnect 0, Enqueue False ''http://a.example/'' None,
            Enqueue False ''http://b.example/'' None, ReqEnd 0, Tick 20000, Timeout 0,
            ReqEnd 1, SockData 0 [0, 0, 0, 1, 1, 65]] init = Some s \<and>
       sent s = [(Some 0, 0), (Some 0, 1)] \<and> received s = [[65]] \<and>
       delivered s = [(0, GatewayTimeout504), (1, Relayed [65])]"
  by (simp add: client_defs frame_A)

text \<open>
  C5 (unknown frame types). A frame whose type tag is neither 0 nor 1, standing after
  any sequence of complete frames, is skipped by its declared length and decoding goes
  on behind it. The reader of framing.js reports it and then decodes what follows
  exactly as it decodes that rest alone. The local agent's callback drops it: the data
  handler ends in the same state as on the stream without that frame, and a type-1
  frame that follows it is received with its payload and answers the request at the
  head of the queue. The relay's loop steps over it: its data handler ends in the same
  state as on the stream without that frame, and a type-0 frame that follows it is
  pushed with its payload and handled, after which the loop goes on with the rest.
\<close>

theorem C5_unknown_type_skipped:
  assumes t: "t < 256" "t \<noteq> 0" "t \<noteq> 1"
    and f: "sendMessage t p = Inr f"
    and w: "send_all ms = Inr w"
  shows "on_data [] (w @ f @ rest) = (as_read ms @ (t, p) # fst (on_data [] rest), snd (on_data [] rest)) \<and>
         on_message (t, p) s = s \<and>
         (rbuf (socks s ! k) @ pre = w \<longrightarrow>
            on_sock_data k (pre @ f @ rest) s = on_sock_data k (pre @ rest) s) \<and>
         (rbuf (socks s ! k) = [] \<and> sendMessage 1 q = Inr g \<longrightarrow>
            received (on_sock_data k (f @ g) s) = received s @ [q]) \<and>
         (run tr init = Some s \<and> rbuf (socks s ! k) = [] \<and> sendMessage 1 q = Inr g \<and>
          queue s \<noteq> [] \<and> settled (objs s ! hd (queue s)) = None \<and>
          i \<in> set (reactions (objs s ! hd (queue s))) \<and> awaiting_response s i \<longrightarrow>
            delivered (on_sock_data k (f @ g) s) = delivered s @ [(hd (queue s), Relayed q)]) \<and>
         (r_buf (rsocks rs ! j) @ pre = w \<longrightarrow>
            on_rdata P j (pre @ f @ rest) rs = on_rdata P j (pre @ rest) rs) \<and>
         (sendMessage 0 q = Inr g \<longrightarrow>
            relay_loop P rs (f @ g @ rest) =
              relay_loop P (handleRequestQueue P (push_request q rs)) rest)"
proof (intro conjI impI)
  from t have tm: "t mod 256 = t" by simp
  have e: "reader_loop [] = ([], [])" by (rule reader_loop_short) simp
  have fr: "reader_loop (f @ rest) = ((t, p) # fst (reader_loop rest), snd (reader_loop rest))"
    using reader_loop_frame[OF f, of rest] by (simp add: tm)
  have r1: "reader_loop (w @ f @ rest) =
      (as_read ms @ (t, p) # fst (reader_loop rest), snd (reader_loop rest))"
    using reader_loop_frames[OF w, of "f @ rest"] by (simp add: fr)
  have r2: "reader_loop (w @ rest) = (as_read ms @ fst (reader_loop rest), snd (reader_loop rest))"
    by (rule reader_loop_frames[OF w])
  show "on_data [] (w @ f @ rest) =
      (as_read ms @ (t, p) # fst (on_data [] rest), snd (on_data [] rest))"
    by (simp add: on_data_def r1)
  show "on_message (t, p) s = s" using t by (simp add: on_message_other)
  {
    assume b: "rbuf (socks s ! k) @ pre = w"
    have e1: "on_data (rbuf (socks s ! k)) (pre @ f @ rest) =
        (as_read ms @ (t, p) # fst (reader_loop rest), snd (reader_loop rest))"
      using r1 unfolding b[symmetric] by (simp add: on_data_def)
    have e2: "on_data (rbuf (socks s ! k)) (pre @ rest) =
        (as_read ms @ fst (reader_loop rest), snd (reader_loop rest))"
      using r2 unfolding b[symmetric] by (simp add: on_data_def)
    show "on_sock_data k (pre @ f @ rest) s = on_sock_data k (pre @ rest) s"
      unfolding on_sock_data_def e1 e2 using t by (simp add: on_message_other)
  }
  have sk: "\<And>x. on_sock_data k (f @ x) s = on_sock_data k x s" if "rbuf (socks s ! k) = []"
  proof -
    fix x
    have e1: "on_data (rbuf (socks s ! k)) (f @ x) =
        ((t, p) # fst (reader_loop x), snd (reader_loop x))"
      using that reader_loop_frame[OF f, of x] by (simp add: on_data_def tm)
    have e2: "on_data (rbuf (socks s ! k)) x = (fst (reader_loop x), snd (reader_loop x))"
      using that by (simp add: on_data_def)
    show "on_sock_data k (f @ x) s = on_sock_data k x s"
      unfolding on_sock_data_def e1 using t that by (simp add: on_message_other Let_def on_data_def)
  qed
  {
    assume a: "rbuf (socks s ! k) = [] \<and> sendMessage 1 q = Inr g"
    then have g: "sendMessage 1 q = Inr g" and b: "rbuf (socks s ! k) = []" by simp_all
    have "on_data [] g = ([(1, q)], [])"
      using reader_loop_frame[OF g, of "[]"] e by (simp add: on_data_def)
    then show "received (on_sock_data k (f @ g) s) = received s @ [q]"
      by (simp add: sk[OF b] on_sock_data_received b)
  }
  {
    assume a: "run tr init = Some s \<and> rbuf (socks s ! k) = [] \<and> sendMessage 1 q = Inr g \<and>
          queue s \<noteq> [] \<and> settled (objs s ! hd (queue s)) = None \<and>
          i \<in> set (reactions (objs s ! hd (queue s))) \<and> awaiting_response s i"
    then have "run tr init = Some s" by simp
    then have wf: "wf s" by (rule wf_reachable)
    from a have b: "rbuf (socks s ! k) = []" by simp
    from a have "delivered (on_sock_data k g s) = delivered s @ [(hd (queue s), Relayed q)]"
      by (intro on_sock_data_frame[OF wf, of q g k i]) simp_all
    then show "delivered (on_sock_data k (f @ g) s) = delivered s @ [(hd (queue s), Relayed q)]"
      by (simp add: sk[OF b])
  }
  have skr: "\<And>s x. relay_loop P s (f @ x) = relay_loop P s x"
    using relay_loop_frame[OF f] t by (simp add: tm)
  {
    assume b: "r_buf (rsocks rs ! j) @ pre = w"
    have "relay_loop P rs (w @ f @ rest) = relay_loop P rs (w @ rest)"
      using w
    proof (induction ms arbitrary: w rs)
      case Nil
      then show ?case by (simp add: skr)
    next
      case (Cons m ms)
      from Cons.prems obtain g r where g: "sendMessage (fst m) (snd m) = Inr g"
        and r: "send_all ms = Inr r" and w: "w = g @ r"
        by (auto split: sum.splits)
      show ?case
        using relay_loop_frame[OF g, of P rs "r @ f @ rest"] relay_loop_frame[OF g, of P rs "r @ rest"]
          Cons.IH[OF r] by (simp add: w)
    qed
    then have "relay_loop P rs (r_buf (rsocks rs ! j) @ pre @ f @ rest) =
        relay_loop P rs (r_buf (rsocks rs ! j) @ pre @ rest)"
      using b by (metis append_assoc)
    then show "on_rdata P j (pre @ f @ rest) rs = on_rdata P j (pre @ rest) rs"
      by (simp add: on_rdata_def)
  }
  {
    assume g: "sendMessage 0 q = Inr g"
    from relay_loop_frame[OF g, of P rs rest]
    show "relay_loop P rs (f @ g @ rest) =
              relay_loop P (handleRequestQueue P (push_request q rs)) rest"
      by (simp add: skr)
  }
qed



theorem C5_unknown_type_skipped_witness:
  "on_data [] ([0, 0, 0, 1, 1, 65] @ [0, 0, 0, 1, 7, 9] @ [0, 0, 0, 1, 0, 66]) =
     ([(1, [65]), (7, [9]), (0, [66])], []) \<and>
   (\<exists>a a'. run [SockConnect 0, Enqueue False ''http://a.example/'' None, ReqEnd 0] init = Some a \<and>
       step (SockData 0 ([0, 0, 0, 1, 7, 9] @ [0, 0, 0, 1, 1, 65])) a = Some a' \<and>
       received a' = [[65]] \<and> delivered a' = [(0, Relayed [65])]) \<and>
   relay_loop example_platform (handleClient rinit) ([0, 0, 0, 1, 7, 9] @ [0, 0, 0, 1, 0, 66] @ [0, 0]) =
     ((handleClient rinit)\<lparr>requestQueue := [(0, [66])], pushes := 1, r_processing := True,
         calls := [\<lparr>c_msg = 0, c_kind = HttpCall, c_state = Pending\<rparr>]\<rparr>, [0, 0])"
proof -
  have f: "sendMessage 7 [9] = Inr [0, 0, 0, 1, 7, 9]"
    and g0: "sendMessage 0 [66] = Inr [0, 0, 0, 1, 0, 66]"
    and g1: "sendMessage 1 [65] = Inr [0, 0, 0, 1, 1, 65]"
    and w: "send_all [(1, [65])] = Inr [0, 0, 0, 1, 1, 65]"
    and w0: "send_all [] = Inr []"
    by (simp_all add: sendMessage_def writeUInt32BE_def)
  have e: "reader_loop [] = ([], [])" by (rule reader_loop_short) simp
  have r: "on_data [] [0, 0, 0, 1, 0, 66] = ([(0, [66])], [])"
    using reader_loop_frame[OF g0, of "[]"] e by (simp add: on_data_def)
  obtain a where a: "run [SockConnect 0, Enqueue False ''http://a.example/'' None, ReqEnd 0] init = Some a"
    "length (socks a) = 1" "connected (socks a ! 0)" "\<not> destroyed (socks a ! 0)" "rbuf (socks a ! 0) = []"
    "queue a = [0]" "settled (objs a ! 0) = None" "reactions (objs a ! 0) = [0]"
    "pc (invs a ! 0) = AwaitResp 20000" "delivered a = []" "received a = []" "\<not> exited a"
    by (simp add: client_defs)
  note t1 = C5_unknown_type_skipped[where t = 7 and p = "[9]" and f = "[0, 0, 0, 1, 7, 9]"
      and ms = "[(1, [65])]" and w = "[0, 0, 0, 1, 1, 65]" and rest = "[0, 0, 0, 1, 0, 66]", OF _ _ _ f w]
  note t2 = C5_unknown_type_skipped[where t = 7 and p = "[9]" and f = "[0, 0, 0, 1, 7, 9]"
      and ms = "[]" and w = "[]" and s = a and k = 0 and q = "[65]" and g = "[0, 0, 0, 1, 1, 65]"
      and tr = "[SockConnect 0, Enqueue False ''http://a.example/'' None, ReqEnd 0]" and i = 0,
      OF _ _ _ f w0]
  note t3 = C5_unknown_type_skipped[where t = 7 and p = "[9]" and f = "[0, 0, 0, 1, 7, 9]"
      and ms = "[]" and w = "[]" and q = "[66]" and g = "[0, 0, 0, 1, 0, 66]" and rest = "[0, 0]"
      and rs = "handleClient rinit" and P = example_platform, OF _ _ _ f w0]
  have A: "on_data [] ([0, 0, 0, 1, 1, 65] @ [0, 0, 0, 1, 7, 9] @ [0, 0, 0, 1, 0, 66]) =
     ([(1, [65]), (7, [9]), (0, [66])], [])"
    using t1 r by (simp add: as_read_def)
  have "step (SockData 0 ([0, 0, 0, 1, 7, 9] @ [0, 0, 0, 1, 1, 65])) a =
      Some (on_sock_data 0 ([0, 0, 0, 1, 7, 9] @ [0, 0, 0, 1, 1, 65]) a)"
    using a by (simp add: step_def)
  moreover have "received (on_sock_data 0 ([0, 0, 0, 1, 7, 9] @ [0, 0, 0, 1, 1, 65]) a) = received a @ [[65]]"
    by (rule t2[THEN conjunct2, THEN conjunct2, THEN conjunct2, THEN conjunct1, rule_format])
       (use g1 a in simp_all)
  moreover have "delivered (on_sock_data 0 ([0, 0, 0, 1, 7, 9] @ [0, 0, 0, 1, 1, 65]) a) =
      delivered a @ [(hd (queue a), Relayed [65])]"
    by (rule t2[THEN conjunct2, THEN conjunct2, THEN conjunct2, THEN conjunct2, THEN conjunct1, rule_format])
       (use g1 a in \<open>simp_all add: awaiting_response_def\<close>)
  ultimately have B: "\<exists>a a'. run [SockConnect 0, Enqueue False ''http://a.example/'' None, ReqEnd 0] init = Some a \<and>
       step (SockData 0 ([0, 0, 0, 1, 7, 9] @ [0, 0, 0, 1, 1, 65])) a = Some a' \<and>
       received a' = [[65]] \<and> delivered a' = [(0, Relayed [65])]"
    using a by simp
  have "relay_loop example_platform (handleRequestQueue example_platform (push_request [66] (handleClient rinit))) [0, 0] =
     ((handleClient rinit)\<lparr>requestQueue := [(0, [66])], pushes := 1, r_processing := True,
         calls := [\<lparr>c_msg = 0, c_kind = HttpCall, c_state = Pending\<rparr>]\<rparr>, [0, 0])"
    by (simp add: relay_loop.simps handleRequestQueue.simps push_request_def handleClient_def rinit_def
        client_gone_def example_platform_def Let_def)
  moreover have "relay_loop example_platform (handleClient rinit) ([0, 0, 0, 1, 7, 9] @ [0, 0, 0, 1, 0, 66] @ [0, 0]) =
      relay_loop example_platform (handleRequestQueue example_platform (push_request [66] (handleClient rinit))) [0, 0]"
    by (rule t3[THEN conjunct2, THEN conjunct2, THEN conjunct2, THEN conjunct2, THEN conjunct2,
          THEN conjunct2, rule_format]) (use g0 in simp_all)
  ultimately have C: "relay_loop example_platform (handleClient rinit) ([0, 0, 0, 1, 7, 9] @ [0, 0, 0, 1, 0, 66] @ [0, 0]) =
     ((handleClient rinit)\<lparr>requestQueue := [(0, [66])], pushes := 1, r_processing := True,
         calls := [\<lparr>c_msg = 0, c_kind = HttpCall, c_state = Pending\<rparr>]\<rparr>, [0, 0])"
    by simp
  from A B C show ?thesis by blast
qed

text \<open>
  C6 fails on the code. Request 0 is sent on socket 0 at time 0 and no type-1 frame
  ever arrives. The socket closes, which clears \<open>processing\<close> (line 56) while the call
  that sent the request is parked at line 131. A second request makes
  \<open>enqueueRequest\<close> start a second call on the same head of the queue; it finds no
  usable socket, neither after its 200 ms, and answers request 0 with 502 (lines
  102-109). Request 0 has left the queue when its timer fires at 20000 ms: the 504
  cannot be written any more, and lines 208-210 remove request 1, whose call is still
  waiting for the request body, from the queue.
\<close>

theorem C6_sent_request_answered_502_and_timer_drops_next:
  "\<exists>s. run [SockConnect 0, Enqueue False ''http://a.example/'' None, ReqEnd 0, SockClose 0,
            Enqueue False ''http://b.example/'' None, SockError 1, Tick 200, Wake 1,
            Tick 200, Wake 2, ResClose 0, Tick 19600, Timeout 0] init = Some s \<and>
       sent s = [(Some 0, 0)] \<and> received s = [] \<and> delivered s = [(0, Unavailable502)] \<and>
       now s = 20000 \<and> queue s = [] \<and> \<not> processing s \<and>
       invs s ! 0 = \<lparr>current = 0, pc = Finished\<rparr> \<and>
       invs s ! 2 = \<lparr>current = 1, pc = AwaitEnd\<rparr> \<and> \<not> exited s"
  by (simp add: client_defs)

text \<open>
  C7, as stated, fails in three places. (1) The relay answers on the connection that
  is open when the outbound call fails; when the local agent's connection has closed
  in the meantime, \<open>sendFramedMessage\<close> returns at its guard and nothing is sent.
  (2) When the failure comes later than the agent's 20000 ms, the client has been
  answered 504 by then, and the 502 envelope is not delivered to it. (3) A client whose
  request method is HEAD receives the status 502 without a body.
\<close>

theorem C7_no_502_counterexample:
  "(\<exists>s. rrun example_platform
            [RAccept, RData 0 [0, 0, 0, 1, 0, 71], RClose 0, HttpError 0 [98, 111, 111, 109]] rinit = Some s \<and>
        replies s = [] \<and> r_out (rsocks s ! 0) = [] \<and> length (rsocks s) = 1) \<and>
   (\<exists>a. run [SockConnect 0, Enqueue False ''http://bad.invalid/'' None, ReqEnd 0, Tick 20000, Timeout 0,
             SockData 0 [0, 0, 0, 6, 1, 1, 246, 98, 111, 111, 109]] init = Some a \<and>
        received a = [[1, 246, 98, 111, 111, 109]] \<and> delivered a = [(0, GatewayTimeout504)]) \<and>
   render example_platform True (Relayed (errorResp example_platform [98, 111, 111, 109])) =
     \<lparr>status = 502, resp_headers = [], resp_body = []\<rparr>"
proof -
  have r: "reader_loop [0, 0, 0, 6, 1, 1, 246, 98, 111, 111, 109] = ([(1, [1, 246, 98, 111, 111, 109])], [])"
    by (simp add: reader_loop.simps readUInt32BE_def)
  have "\<exists>s. rrun example_platform
            [RAccept, RData 0 [0, 0, 0, 1, 0, 71], RClose 0, HttpError 0 [98, 111, 111, 109]] rinit = Some s \<and>
        replies s = [] \<and> r_out (rsocks s ! 0) = [] \<and> length (rsocks s) = 1"
    by (simp add: relay_defs)
  moreover have "\<exists>a. run [SockConnect 0, Enqueue False ''http://bad.invalid/'' None, ReqEnd 0, Tick 20000, Timeout 0,
             SockData 0 [0, 0, 0, 6, 1, 1, 246, 98, 111, 111, 109]] init = Some a \<and>
        received a = [[1, 246, 98, 111, 111, 109]] \<and> delivered a = [(0, GatewayTimeout504)]"
    by (simp add: client_defs r)
  moreover have "render example_platform True (Relayed (errorResp example_platform [98, 111, 111, 109])) =
     \<lparr>status = 502, resp_headers = [], resp_body = []\<rparr>"
    by (simp add: render_def respond_def no_body_def errorResp_def example_platform_def ascii_def)
  ultimately show ?thesis by blast
qed

text \<open>
  C7, amended. When an outbound HTTP call of the relay fails while a connection from the
  local agent is open, the error handler raises nothing and writes to that connection
  one type-1 frame whose payload is the envelope with status code 502, no headers and
  the base64 text of the error message as its body; with no open connection it writes
  nothing. When that frame arrives whole at the local agent while the request at the
  head of its queue is unsettled and a call awaits its response, this request is
  answered with the envelope, and its client receives status 502, no headers and the
  error message as the body (no body when the request method is HEAD). The envelope is
  below the frame format's limit of \<open>2^32\<close> bytes, and \<open>JSON.parse\<close> and the base64
  decoding undo \<open>JSON.stringify\<close> and the base64 encoding on it.
\<close>

theorem C7_outbound_failure_answered_502:
  "(\<not> crashed s \<and> call_is s j HttpCall \<and> c_state (calls s ! j) = Pending \<and>
    clientSocket s = Some k \<and> k < length (rsocks s) \<and> \<not> r_destroyed (rsocks s ! k) \<and>
    length (errorResp P msg) < 2 ^ 32 \<longrightarrow>
      (\<exists>s' f. rstep P (HttpError j msg) s = Some s' \<and> \<not> crashed s' \<and>
          sendMessage 1 (errorResp P msg) = Inr f \<and>
          r_out (rsocks s' ! k) = r_out (rsocks s ! k) @ f \<and>
          replies s' = replies s @ [(k, c_msg (calls s ! j), errorResp P msg)])) \<and>
   (\<not> crashed s \<and> call_is s j HttpCall \<and> c_state (calls s ! j) = Pending \<and> client_gone s \<longrightarrow>
      (\<exists>s'. rstep P (HttpError j msg) s = Some s' \<and> \<not> crashed s' \<and>
          rsocks s' = rsocks s \<and> replies s' = replies s)) \<and>
   errorResp P msg =
     stringify P \<lparr>statusCode = Some 502, headers = Some [], body = Some (base64 P msg)\<rparr> \<and>
   (run tr init = Some a \<and> \<not> exited a \<and> k' < length (socks a) \<and> connected (socks a ! k') \<and>
    \<not> destroyed (socks a ! k') \<and> rbuf (socks a ! k') = [] \<and> queue a \<noteq> [] \<and>
    settled (objs a ! hd (queue a)) = None \<and> i \<in> set (reactions (objs a ! hd (queue a))) \<and>
    awaiting_response a i \<and> sendMessage 1 (errorResp P msg) = Inr f \<longrightarrow>
      (\<exists>a'. step (SockData k' f) a = Some a' \<and>
          delivered a' = delivered a @ [(hd (queue a), Relayed (errorResp P msg))])) \<and>
   (parse P (errorResp P msg) =
      Some \<lparr>statusCode = Some 502, headers = Some [], body = Some (base64 P msg)\<rparr> \<and>
    unbase64 P (base64 P msg) = msg \<and> valid_headers P [] \<longrightarrow>
      render P isHead (Relayed (errorResp P msg)) =
        \<lparr>status = 502, resp_headers = [], resp_body = (if isHead then [] else msg)\<rparr>)"
proof (intro conjI impI)
  assume h: "\<not> crashed s \<and> call_is s j HttpCall \<and> c_state (calls s ! j) = Pending \<and>
    clientSocket s = Some k \<and> k < length (rsocks s) \<and> \<not> r_destroyed (rsocks s ! k) \<and>
    length (errorResp P msg) < 2 ^ 32"
  let ?s0 = "upd_call j (\<lambda>x. x\<lparr>c_state := Errored\<rparr>) s"
  from h have st: "rstep P (HttpError j msg) s = Some (on_http_error P j msg s)"
    by (simp add: rstep_def)
  from h have "clientSocket ?s0 = Some k" "k < length (rsocks ?s0)" "\<not> r_destroyed (rsocks ?s0 ! k)"
    "length (errorResp P msg) < 2 ^ 32" by simp_all
  from reply_and_cleanup_live[OF this, of P j]
  obtain f where f: "sendMessage 1 (errorResp P msg) = Inr f"
    and o: "rsocks (on_http_error P j msg s) =
              (rsocks s)[k := (rsocks s ! k)\<lparr>r_out := r_out (rsocks s ! k) @ f\<rparr>]"
    and r: "replies (on_http_error P j msg s) = replies s @ [(k, c_msg (calls s ! j), errorResp P msg)]"
    and c: "crashed (on_http_error P j msg s) = crashed s"
    by (auto simp: on_http_error_def)
  from o h have "r_out (rsocks (on_http_error P j msg s) ! k) = r_out (rsocks s ! k) @ f"
    by simp
  with st f r c h show "\<exists>s' f. rstep P (HttpError j msg) s = Some s' \<and> \<not> crashed s' \<and>
          sendMessage 1 (errorResp P msg) = Inr f \<and>
          r_out (rsocks s' ! k) = r_out (rsocks s ! k) @ f \<and>
          replies s' = replies s @ [(k, c_msg (calls s ! j), errorResp P msg)]"
    by simp
next
  assume h: "\<not> crashed s \<and> call_is s j HttpCall \<and> c_state (calls s ! j) = Pending \<and> client_gone s"
  let ?s0 = "upd_call j (\<lambda>x. x\<lparr>c_state := Errored\<rparr>) s"
  from h have st: "rstep P (HttpError j msg) s = Some (on_http_error P j msg s)"
    by (simp add: rstep_def)
  from h have "client_gone ?s0" by (simp add: client_gone_def split: option.splits)
  from reply_and_cleanup_gone[OF this, of P j "errorResp P msg"] st h
  show "\<exists>s'. rstep P (HttpError j msg) s = Some s' \<and> \<not> crashed s' \<and>
          rsocks s' = rsocks s \<and> replies s' = replies s"
    by (simp add: on_http_error_def)
next
  show "errorResp P msg =
     stringify P \<lparr>statusCode = Some 502, headers = Some [], body = Some (base64 P msg)\<rparr>"
    by (simp add: errorResp_def)
next
  assume h: "run tr init = Some a \<and> \<not> exited a \<and> k' < length (socks a) \<and> connected (socks a ! k') \<and>
    \<not> destroyed (socks a ! k') \<and> rbuf (socks a ! k') = [] \<and> queue a \<noteq> [] \<and>
    settled (objs a ! hd (queue a)) = None \<and> i \<in> set (reactions (objs a ! hd (queue a))) \<and>
    awaiting_response a i \<and> sendMessage 1 (errorResp P msg) = Inr f"
  then have "run tr init = Some a" by simp
  then have w: "wf a" by (rule wf_reachable)
  from h have "step (SockData k' f) a = Some (on_sock_data k' f a)"
    by (simp add: step_def)
  moreover from h have "delivered (on_sock_data k' f a) =
      delivered a @ [(hd (queue a), Relayed (errorResp P msg))]"
    by (intro on_sock_data_frame[OF w, of "errorResp P msg" f k' i]) simp_all
  ultimately show "\<exists>a'. step (SockData k' f) a = Some a' \<and>
          delivered a' = delivered a @ [(hd (queue a), Relayed (errorResp P msg))]"
    by simp
next
  assume "parse P (errorResp P msg) =
      Some \<lparr>statusCode = Some 502, headers = Some [], body = Some (base64 P msg)\<rparr> \<and>
    unbase64 P (base64 P msg) = msg \<and> valid_headers P []"
  then show "render P isHead (Relayed (errorResp P msg)) =
        \<lparr>status = 502, resp_headers = [], resp_body = (if isHead then [] else msg)\<rparr>"
    by (simp add: render_def respond_def no_body_def)
qed

theorem C7_outbound_failure_answered_502_witness:
  "\<exists>s s' s'' a a'.
     rrun example_platform [RAccept, RData 0 [0, 0, 0, 1, 0, 71]] rinit = Some s \<and>
     calls s = [\<lparr>c_msg = 0, c_kind = HttpCall, c_state = Pending\<rparr>] \<and>
     rstep example_platform (HttpError 0 [98, 111, 111, 109]) s = Some s' \<and> \<not> crashed s' \<and>
     r_out (rsocks s' ! 0) = [0, 0, 0, 6, 1, 1, 246, 98, 111, 111, 109] \<and>
     replies s' = [(0, 0, [1, 246, 98, 111, 111, 109])] \<and>
     rstep example_platform (HttpError 0 [98, 111, 111, 109]) (on_rclose 0 s) = Some s'' \<and>
     replies s'' = [] \<and>
     run [SockConnect 0, Enqueue False ''http://bad.invalid/'' None, ReqEnd 0] init = Some a \<and>
     step (SockData 0 [0, 0, 0, 6, 1, 1, 246, 98, 111, 111, 109]) a = Some a' \<and>
     delivered a' = [(0, Relayed [1, 246, 98, 111, 111, 109])] \<and>
     render example_platform False (Relayed [1, 246, 98, 111, 111, 109]) =
       \<lparr>status = 502, resp_headers = [], resp_body = [98, 111, 111, 109]\<rparr>"
proof -
  let ?P = example_platform
  let ?msg = "[98, 111, 111, 109] :: bytes"
  have e: "errorResp ?P ?msg = [1, 246, 98, 111, 111, 109]"
    by (simp add: errorResp_def example_platform_def ascii_def)
  have f: "sendMessage 1 [1, 246, 98, 111, 111, 109] = Inr [0, 0, 0, 6, 1, 1, 246, 98, 111, 111, 109]"
    by (simp add: sendMessage_def writeUInt32BE_def)
  have p: "parse ?P [1, 246, 98, 111, 111, 109] =
           Some \<lparr>statusCode = Some 502, headers = Some [], body = Some (base64 ?P ?msg)\<rparr>"
    "unbase64 ?P (base64 ?P ?msg) = ?msg" "valid_headers ?P []"
    by (simp_all add: example_platform_def ascii_def)
  obtain s where s: "rrun ?P [RAccept, RData 0 [0, 0, 0, 1, 0, 71]] rinit = Some s"
    "calls s = [\<lparr>c_msg = 0, c_kind = HttpCall, c_state = Pending\<rparr>]" "\<not> crashed s"
    "clientSocket s = Some 0" "length (rsocks s) = 1" "\<not> r_destroyed (rsocks s ! 0)"
    "r_out (rsocks s ! 0) = []" "replies s = []"
    by (simp add: relay_defs)
  have g: "\<not> crashed (on_rclose 0 s)" "calls (on_rclose 0 s) = calls s" "client_gone (on_rclose 0 s)"
    "replies (on_rclose 0 s) = []"
    using s by (simp_all add: on_rclose_def upd_rsock_def client_gone_def)
  obtain a where a: "run [SockConnect 0, Enqueue False ''http://bad.invalid/'' None, ReqEnd 0] init = Some a"
    "length (socks a) = 1" "connected (socks a ! 0)" "\<not> destroyed (socks a ! 0)" "rbuf (socks a ! 0) = []"
    "queue a = [0]" "settled (objs a ! 0) = None" "reactions (objs a ! 0) = [0]"
    "pc (invs a ! 0) = AwaitResp 20000" "delivered a = []" "\<not> exited a"
    by (simp add: client_defs)
  note t = C7_outbound_failure_answered_502[where P = ?P and msg = ?msg and j = 0 and isHead = False,
      unfolded e]
  have A: "\<exists>s' f. rstep ?P (HttpError 0 ?msg) s = Some s' \<and> \<not> crashed s' \<and>
          sendMessage 1 [1, 246, 98, 111, 111, 109] = Inr f \<and>
          r_out (rsocks s' ! 0) = r_out (rsocks s ! 0) @ f \<and>
          replies s' = replies s @ [(0, c_msg (calls s ! 0), [1, 246, 98, 111, 111, 109])]"
    by (rule t[where s = s and k = 0, THEN conjunct1, rule_format]) (use s in \<open>simp_all add: call_is_def\<close>)
  have B: "\<exists>s'. rstep ?P (HttpError 0 ?msg) (on_rclose 0 s) = Some s' \<and> \<not> crashed s' \<and>
          rsocks s' = rsocks (on_rclose 0 s) \<and> replies s' = replies (on_rclose 0 s)"
    by (rule t[where s = "on_rclose 0 s", THEN conjunct2, THEN conjunct1, rule_format])
       (use s g in \<open>simp_all add: call_is_def\<close>)
  have C: "\<exists>a'. step (SockData 0 [0, 0, 0, 6, 1, 1, 246, 98, 111, 111, 109]) a = Some a' \<and>
          delivered a' = delivered a @ [(hd (queue a), Relayed [1, 246, 98, 111, 111, 109])]"
    by (rule t[where a = a and k' = 0 and i = 0 and f = "[0, 0, 0, 6, 1, 1, 246, 98, 111, 111, 109]"
          and tr = "[SockConnect 0, Enqueue False ''http://bad.invalid/'' None, ReqEnd 0]",
          THEN conjunct2, THEN conjunct2, THEN conjunct2, THEN conjunct1, rule_format])
       (use a f in \<open>simp_all add: awaiting_response_def\<close>)
  have D: "render ?P False (Relayed [1, 246, 98, 111, 111, 109]) =
        \<lparr>status = 502, resp_headers = [], resp_body = (if False then [] else ?msg)\<rparr>"
    by (rule t[THEN conjunct2, THEN conjunct2, THEN conjunct2, THEN conjunct2, rule_format])
       (use p in simp_all)
  from A f s obtain s' where s': "rstep ?P (HttpError 0 ?msg) s = Some s'" "\<not> crashed s'"
    "r_out (rsocks s' ! 0) = [0, 0, 0, 6, 1, 1, 246, 98, 111, 111, 109]"
    "replies s' = [(0, 0, [1, 246, 98, 111, 111, 109])]"
    by auto
  from B g obtain s'' where s'': "rstep ?P (HttpError 0 ?msg) (on_rclose 0 s) = Some s''" "replies s'' = []"
    by auto
  from C a obtain a' where a': "step (SockData 0 [0, 0, 0, 6, 1, 1, 246, 98, 111, 111, 109]) a = Some a'"
    "delivered a' = [(0, Relayed [1, 246, 98, 111, 111, 109])]"
    by auto
  from s s' s'' a(1) a' D show ?thesis by auto
qed

text \<open>
  C8, as stated, fails: the match state is not voided and the request is not left to
  its timeout. Request 0 is sent on socket 0, which then closes. After the reconnect a
  type-1 frame arrives on socket 1; the callback of lines 60-67 resolves the promise of
  the head of the queue, which is still request 0, and the request is answered with
  that payload at 5000 ms.
\<close>

theorem C8_answered_on_new_connection_counterexample:
  "\<exists>s. run [SockConnect 0, Enqueue False ''http://a.example/'' None, ReqEnd 0, SockClose 0,
            Tick 5000, ReconnectFire, SockConnect 1, SockData 1 [0, 0, 0, 1, 1, 65]] init = Some s \<and>
       sent s = [(Some 0, 0)] \<and> delivered s = [(0, Relayed [65])] \<and> now s = 5000 \<and>
       queue s = [] \<and> \<not> exited s"
  by (simp add: client_defs frame_A)

text \<open>
  C8, amended. When a relay socket closes after the frame of a request was written, the
  close handler leaves the queue, the requests with their promises, the suspended calls
  with their timers and the logs as they are, and whatever happens afterwards, no
  further frame is ever written for that request. In every later state in which the
  request is still the head of the queue, the following holds. If its promise is
  unsettled and a call awaits it, a type-1 frame that arrives whole on a connected
  socket with an empty reader buffer answers the request with the payload of the frame.
  If a call for it awaits the response with its timer due at \<open>d\<close>, the timer cannot fire
  before \<open>d\<close>, and when it fires from \<open>d\<close> on the request is answered with 504.
\<close>

theorem C8_close_keeps_request_and_never_resends:
  assumes "run tr1 init = Some s1" and "step (SockClose k) s1 = Some s2"
    and "run tr2 s2 = Some s3" and "(k', c) \<in> set (sent s1)"
  shows "queue s2 = queue s1 \<and> objs s2 = objs s1 \<and> invs s2 = invs s1 \<and>
         delivered s2 = delivered s1 \<and> sent s2 = sent s1 \<and>
         filter (\<lambda>x. snd x = c) (sent s3) = filter (\<lambda>x. snd x = c) (sent s1) \<and>
         (\<not> exited s3 \<and> queue s3 \<noteq> [] \<and> hd (queue s3) = c \<and> settled (objs s3 ! c) = None \<and>
          i \<in> set (reactions (objs s3 ! c)) \<and> awaiting_response s3 i \<and>
          j < length (socks s3) \<and> connected (socks s3 ! j) \<and> \<not> destroyed (socks s3 ! j) \<and>
          rbuf (socks s3 ! j) = [] \<and> sendMessage 1 p = Inr f \<longrightarrow>
            (\<exists>s4. step (SockData j f) s3 = Some s4 \<and>
                  delivered s4 = delivered s3 @ [(c, Relayed p)])) \<and>
         (\<not> exited s3 \<and> queue s3 \<noteq> [] \<and> hd (queue s3) = c \<and> i < length (invs s3) \<and>
          current (invs s3 ! i) = c \<and> pc (invs s3 ! i) = AwaitResp d \<longrightarrow>
            (now s3 < d \<longrightarrow> step (Timeout i) s3 = None) \<and>
            (d \<le> now s3 \<longrightarrow>
               (\<exists>s4. step (Timeout i) s3 = Some s4 \<and>
                     delivered s4 = delivered s3 @ [(c, GatewayTimeout504)])))"
proof -
  from assms(2) have s2: "s2 = on_close k s1" by (simp add: step_def split: if_splits)
  have a: "queue s2 = queue s1 \<and> objs s2 = objs s1 \<and> invs s2 = invs s1 \<and>
         delivered s2 = delivered s1 \<and> sent s2 = sent s1"
    by (simp add: s2 on_close_def schedule_reconnect_def upd_sock_def)
  from assms(1) have w1: "wf s1" by (rule wf_reachable)
  from wf_step[OF w1 assms(2)] have w2: "wf s2" .
  from wf_run[OF w2 assms(3)] have w3: "wf s3" .
  from assms(4) a have "(k', c) \<in> set (sent s2)" by simp
  from run_keeps_frames_of_sent[OF w2 assms(3) this] a
  have b: "filter (\<lambda>x. snd x = c) (sent s3) = filter (\<lambda>x. snd x = c) (sent s1)" by simp
  have c: "\<exists>s4. step (SockData j f) s3 = Some s4 \<and> delivered s4 = delivered s3 @ [(c, Relayed p)]"
    if h: "\<not> exited s3 \<and> queue s3 \<noteq> [] \<and> hd (queue s3) = c \<and> settled (objs s3 ! c) = None \<and>
          i \<in> set (reactions (objs s3 ! c)) \<and> awaiting_response s3 i \<and>
          j < length (socks s3) \<and> connected (socks s3 ! j) \<and> \<not> destroyed (socks s3 ! j) \<and>
          rbuf (socks s3 ! j) = [] \<and> sendMessage 1 p = Inr f"
  proof -
    from h have "step (SockData j f) s3 = Some (on_sock_data j f s3)"
      by (simp add: step_def)
    moreover from h have "delivered (on_sock_data j f s3) = delivered s3 @ [(hd (queue s3), Relayed p)]"
      by (intro on_sock_data_frame[OF w3, of p f j i]) simp_all
    ultimately show ?thesis using h by simp
  qed
  have d: "(now s3 < d \<longrightarrow> step (Timeout i) s3 = None) \<and>
            (d \<le> now s3 \<longrightarrow>
               (\<exists>s4. step (Timeout i) s3 = Some s4 \<and>
                     delivered s4 = delivered s3 @ [(c, GatewayTimeout504)]))"
    if h: "\<not> exited s3 \<and> queue s3 \<noteq> [] \<and> hd (queue s3) = c \<and> i < length (invs s3) \<and>
          current (invs s3 ! i) = c \<and> pc (invs s3 ! i) = AwaitResp d"
  proof -
    from h have e: "\<not> exited s3" "i < length (invs s3)" "pc (invs s3 ! i) = AwaitResp d"
      "queue s3 \<noteq> []" "hd (queue s3) = current (invs s3 ! i)" by simp_all
    from timeout_at_head[OF w3 e] h show ?thesis by simp
  qed
  from a b c d show ?thesis by blast
qed

theorem C8_close_keeps_request_and_never_resends_witness:
  "\<exists>s1 s2 s3 s4.
     run [SockConnect 0, Enqueue False ''http://a.example/'' None, ReqEnd 0] init = Some s1 \<and>
     step (SockClose 0) s1 = Some s2 \<and>
     run [Tick 5000, ReconnectFire, SockConnect 1] s2 = Some s3 \<and>
     sent s1 = [(Some 0, 0)] \<and> queue s2 = [0] \<and> sent s3 = [(Some 0, 0)] \<and>
     step (SockData 1 [0, 0, 0, 1, 1, 65]) s3 = Some s4 \<and> delivered s4 = [(0, Relayed [65])] \<and>
     now s3 = 5000 \<and> pc (invs s3 ! 0) = AwaitResp 20000 \<and> step (Timeout 0) s3 = None"
proof -
  obtain s1 where s1: "run [SockConnect 0, Enqueue False ''http://a.example/'' None, ReqEnd 0] init = Some s1"
    "sent s1 = [(Some 0, 0)]" "queue s1 = [0]"
    by (simp add: client_defs)
  obtain s3 where s3: "run [SockConnect 0, Enqueue False ''http://a.example/'' None, ReqEnd 0,
      SockClose 0, Tick 5000, ReconnectFire, SockConnect 1] init = Some s3"
    "\<not> exited s3" "queue s3 = [0]" "settled (objs s3 ! 0) = None" "reactions (objs s3 ! 0) = [0]"
    "length (invs s3) = 2" "invs s3 ! 0 = \<lparr>current = 0, pc = AwaitResp 20000\<rparr>"
    "length (socks s3) = 2" "connected (socks s3 ! 1)" "\<not> destroyed (socks s3 ! 1)"
    "rbuf (socks s3 ! 1) = []" "now s3 = 5000" "delivered s3 = []" "sent s3 = [(Some 0, 0)]"
    by (simp add: client_defs)
  from s3(1) s1(1) obtain s2 where s2: "step (SockClose 0) s1 = Some s2"
    "run [Tick 5000, ReconnectFire, SockConnect 1] s2 = Some s3"
    using run_append[of "[SockConnect 0, Enqueue False ''http://a.example/'' None, ReqEnd 0]"
        "[SockClose 0, Tick 5000, ReconnectFire, SockConnect 1]" init]
    by (auto split: option.splits)
  have f: "sendMessage 1 [65] = Inr [0, 0, 0, 1, 1, 65]"
    by (simp add: sendMessage_def writeUInt32BE_def)
  have m: "(Some 0, 0) \<in> set (sent s1)" using s1 by simp
  note t = C8_close_keeps_request_and_never_resends[OF s1(1) s2 m,
      where i = 0 and j = 1 and p = "[65]" and f = "[0, 0, 0, 1, 1, 65]" and d = 20000]
  from t have "queue s2 = queue s1" by simp
  moreover from t s3 f have "\<exists>s4. step (SockData 1 [0, 0, 0, 1, 1, 65]) s3 = Some s4 \<and>
      delivered s4 = delivered s3 @ [(0, Relayed [65])]"
    by (simp add: awaiting_response_def)
  moreover from t s3 have "step (Timeout 0) s3 = None" by simp
  ultimately show ?thesis using s1 s2 s3 by auto
qed

text \<open>
  C9 fails on the code at its last step, the next queued entry. A CONNECT request
  (request 0) is followed in the queue by a plain request (request 1). The tunnel is
  established; no frame is written to the relay for request 0. When the client closes
  the tunnel, the handler of lines 184-190 destroys \<open>remote\<close>, shifts the queue and
  starts the call for request 1. The destroyed \<open>remote\<close> then emits \<open>'close'\<close>, and the
  handler of lines 192-198 shifts the queue a second time: request 1 leaves the queue
  while its call waits for the request body. Its frame is still sent when the body
  ends, but the relay's answer finds an empty queue (line 65) and is dropped, and
  request 1 is answered 504 by its timer.
\<close>

theorem C9_next_entry_dropped_by_second_close:
  "(\<exists>s. run [SockConnect 0, Enqueue True ''example.com:443'' (Some ''example.com:443''),
             Enqueue False ''http://b.example/'' None, RemoteConnect 0,
             ClientSockClose 0, RemoteClose 0] init = Some s \<and>
        cs_out (objs s ! 0) = [Established200] \<and> sent s = [] \<and>
        queue s = [] \<and> \<not> processing s \<and> delivered s = [] \<and>
        invs s = [\<lparr>current = 1, pc = AwaitEnd\<rparr>] \<and> \<not> exited s) \<and>
   (\<exists>s. run [SockConnect 0, Enqueue True ''example.com:443'' (Some ''example.com:443''),
             Enqueue False ''http://b.example/'' None, RemoteConnect 0,
             ClientSockClose 0, RemoteClose 0, ReqEnd 1, SockData 0 [0, 0, 0, 1, 1, 65],
             Tick 20000, Timeout 0] init = Some s \<and>
        sent s = [(Some 0, 1)] \<and> received s = [[65]] \<and>
        delivered s = [(1, GatewayTimeout504)] \<and> queue s = [] \<and> \<not> exited s)"
  by (simp add: client_defs frame_A)

text \<open>
  C10, as stated, fails for the entry whose outbound call is under way when the
  connection closes: nothing cancels the call, and when it ends its handler writes the
  type-1 response to the connection that is open then. Entry 0 is in the queue when
  socket 0 closes; a new connection (socket 1) is accepted; the call for entry 0 ends
  and its response is written to socket 1.
\<close>

theorem C10_stale_call_answers_counterexample:
  "\<exists>s1 s. rrun example_platform [RAccept, RData 0 [0, 0, 0, 1, 0, 71]] rinit = Some s1 \<and>
       requestQueue s1 = [(0, [71])] \<and> replies s1 = [] \<and>
       rrun example_platform [RClose 0, RAccept, HttpDone 0 200 [] [72]] s1 = Some s \<and>
       replies s = [(1, 0, [0, 200, 72])] \<and> r_out (rsocks s ! 1) = [0, 0, 0, 3, 1, 0, 200, 72]"
  by (simp add: relay_defs)

text \<open>
  C10, amended. When the relay's accepted connection closes, the close handler sets the
  connection handle to null, clears the processing flag and empties the queue in one
  step. For every entry that was in the queue and for which no outbound call had been
  started, no call is ever started and no type-1 response is ever written, and it never
  enters the queue again. As long as no connection is accepted, the queue stays empty,
  the handle null and the flag clear, so that the next accepted connection becomes the
  handle and starts from an empty queue.
\<close>

theorem C10_close_resets_and_drops_unstarted:
  assumes "rrun P tr1 rinit = Some s1" and "rstep P (RClose k) s1 = Some s2"
    and "rrun P tr2 s2 = Some s3"
  shows "clientSocket s2 = None \<and> \<not> r_processing s2 \<and> requestQueue s2 = [] \<and>
         (\<forall>x \<in> set (requestQueue s1). fst x \<notin> c_msg ` set (calls s1) \<longrightarrow>
            fst x \<notin> c_msg ` set (calls s3) \<and> fst x \<notin> (fst \<circ> snd) ` set (replies s3) \<and>
            fst x \<notin> fst ` set (requestQueue s3)) \<and>
         (RAccept \<notin> set tr2 \<longrightarrow>
            clientSocket s3 = None \<and> \<not> r_processing s3 \<and> requestQueue s3 = [] \<and>
            clientSocket (handleClient s3) = Some (length (rsocks s3)) \<and>
            requestQueue (handleClient s3) = [])"
proof -
  from assms(2) have s2: "s2 = on_rclose k s1" by (auto simp: rstep_def split: if_splits)
  have a: "clientSocket s2 = None \<and> \<not> r_processing s2 \<and> requestQueue s2 = []"
    by (simp add: s2 on_rclose_def)
  from assms(1) have w1: "rwf s1" by (rule rwf_reachable)
  from rwf_rstep[OF w1 assms(2)] have w2: "rwf s2" .
  from rwf_rrun[OF w2 assms(3)] have w3: "rwf s3" .
  have b: "fst x \<notin> c_msg ` set (calls s3) \<and> fst x \<notin> (fst \<circ> snd) ` set (replies s3) \<and>
            fst x \<notin> fst ` set (requestQueue s3)"
    if x: "x \<in> set (requestQueue s1)" and n: "fst x \<notin> c_msg ` set (calls s1)" for x
  proof -
    from rwf_queueD[OF w1 x] n have "dropped (fst x) s2"
      by (simp add: dropped_def s2 on_rclose_def)
    from dropped_rrun[OF this assms(3)] have d: "dropped (fst x) s3" .
    then have "fst x \<notin> c_msg ` set (calls s3)" "fst x \<notin> fst ` set (requestQueue s3)"
      by (simp_all add: dropped_def)
    moreover from this(1) rwf_replyD[OF w3] have "fst x \<notin> (fst \<circ> snd) ` set (replies s3)"
      by auto
    ultimately show ?thesis by simp
  qed
  have c: "clientSocket s3 = None \<and> \<not> r_processing s3 \<and> requestQueue s3 = [] \<and>
            clientSocket (handleClient s3) = Some (length (rsocks s3)) \<and>
            requestQueue (handleClient s3) = []"
    if "RAccept \<notin> set tr2"
  proof -
    from a have "idle s2" by (simp add: idle_def)
    from idle_rrun[OF w2 this assms(3) that] have "idle s3" .
    then show ?thesis by (simp add: idle_def handleClient_def)
  qed
  from a b c show ?thesis by blast
qed

theorem C10_close_resets_and_drops_unstarted_witness:
  "\<exists>s1 s2 s3.
     rrun example_platform [RAccept, RData 0 [0, 0, 0, 1, 0, 71, 0, 0, 0, 1, 0, 72]] rinit = Some s1 \<and>
     requestQueue s1 = [(0, [71]), (1, [72])] \<and>
     calls s1 = [\<lparr>c_msg = 0, c_kind = HttpCall, c_state = Pending\<rparr>] \<and>
     rstep example_platform (RClose 0) s1 = Some s2 \<and>
     clientSocket s2 = None \<and> \<not> r_processing s2 \<and> requestQueue s2 = [] \<and>
     rrun example_platform [HttpDone 0 200 [] [72]] s2 = Some s3 \<and>
     1 \<notin> c_msg ` set (calls s3) \<and> 1 \<notin> (fst \<circ> snd) ` set (replies s3) \<and>
     requestQueue s3 = [] \<and> clientSocket (handleClient s3) = Some 1"
proof -
  let ?P = example_platform
  obtain s1 where s1: "rrun ?P [RAccept, RData 0 [0, 0, 0, 1, 0, 71, 0, 0, 0, 1, 0, 72]] rinit = Some s1"
    "requestQueue s1 = [(0, [71]), (1, [72])]"
    "calls s1 = [\<lparr>c_msg = 0, c_kind = HttpCall, c_state = Pending\<rparr>]"
    "length (rsocks s1) = 1" "r_accepted (rsocks s1 ! 0)" "\<not> r_closed (rsocks s1 ! 0)" "\<not> crashed s1"
    by (simp add: relay_defs)
  then have c: "rstep ?P (RClose 0) s1 = Some (on_rclose 0 s1)"
    by (simp add: rstep_def)
  have o: "calls (on_rclose 0 s1) = calls s1" "\<not> crashed (on_rclose 0 s1)"
    "length (rsocks (on_rclose 0 s1)) = 1"
    using s1 by (simp_all add: on_rclose_def)
  obtain s3 where s3: "rrun ?P [HttpDone 0 200 [] [72]] (on_rclose 0 s1) = Some s3"
    using o s1 by (simp add: rstep_def call_is_def)
  have l: "length (rsocks s3) = 1"
    using s3 o s1
    by (auto simp: rstep_def call_is_def on_http_done_def reply_and_cleanup_def sendFramedMessage_def
        on_rclose_def cleanupRequest_def handleRequestQueue.simps split: if_splits)
  note t = C10_close_resets_and_drops_unstarted[OF s1(1) c s3]
  from t have "clientSocket (on_rclose 0 s1) = None \<and> \<not> r_processing (on_rclose 0 s1) \<and>
      requestQueue (on_rclose 0 s1) = []" by simp
  moreover from t s1 have "1 \<notin> c_msg ` set (calls s3) \<and> 1 \<notin> (fst \<circ> snd) ` set (replies s3)"
    by simp
  moreover from t l have "requestQueue s3 = [] \<and> clientSocket (handleClient s3) = Some 1"
    by simp
  ultimately show ?thesis using s1 c s3 by auto
qed

end
